theory Spec2Isabelle
  imports Complex_Main
begin

section \<open>Feedback computation\<close>

text \<open>
  Words are JavaScript strings (or arrays of one-character strings); a read \<open>w[i]\<close>
  beyond the end of the word yields \<open>undefined\<close>, which is modelled by \<open>None\<close>.
  The strict equality \<open>g[i] === a[i]\<close> is equality of these optional characters.
\<close>

definition char_at :: "'a list \<Rightarrow> nat \<Rightarrow> 'a option" where
  "char_at w i = (if i < length w then Some (w ! i) else None)"

text \<open>
  \<open>pattern\<close> of \<open>main.js\<close>: the count-based two-pass version. The object \<open>cnt\<close>
  maps a letter to the number of its unmatched occurrences in the answer; a missing
  property reads as \<open>undefined\<close>, for which both \<open>(cnt[c]||0)\<close> and \<open>cnt[c]>0\<close>
  behave as for the count \<open>0\<close>.
\<close>

definition pattern_pass1 :: "string \<Rightarrow> string \<Rightarrow> nat \<Rightarrow>
    string \<times> (char option \<Rightarrow> nat) \<Rightarrow> string \<times> (char option \<Rightarrow> nat)" where
  "pattern_pass1 g a i st =
     (case st of (res, cnt) \<Rightarrow>
        if char_at a i = char_at g i then (res[i := CHR ''2''], cnt)
        else (res, cnt(char_at a i := cnt (char_at a i) + 1)))"

definition pattern_pass2 :: "string \<Rightarrow> nat \<Rightarrow>
    string \<times> (char option \<Rightarrow> nat) \<Rightarrow> string \<times> (char option \<Rightarrow> nat)" where
  "pattern_pass2 g i st =
     (case st of (res, cnt) \<Rightarrow>
        if res ! i = CHR ''2'' then (res, cnt)
        else if cnt (char_at g i) > 0 then (res[i := CHR ''1''], cnt(char_at g i := cnt (char_at g i) - 1))
        else (res, cnt))"

definition pattern :: "string \<Rightarrow> string \<Rightarrow> string" where
  "pattern guess answer =
     fst (fold (pattern_pass2 guess) [0..<5]
            (fold (pattern_pass1 guess answer) [0..<5] (replicate 5 CHR ''0'', \<lambda>_. 0)))"

text \<open>
  \<open>patternOf\<close> of \<open>dp_solver.js\<close> and \<open>patternFor\<close> of the \<open>dp_top*\<close> scripts: the
  used-array two-pass version. The inner loop over \<open>j\<close> stops at the first unused
  position of the answer that holds the guessed letter.
\<close>

definition greens :: "string \<Rightarrow> string \<Rightarrow> nat \<Rightarrow>
    string \<times> bool list \<Rightarrow> string \<times> bool list" where
  "greens g a i st =
     (case st of (res, used) \<Rightarrow>
        if char_at g i = char_at a i then (res[i := CHR ''2''], used[i := True])
        else (res, used))"

definition yellows :: "string \<Rightarrow> string \<Rightarrow> nat \<Rightarrow>
    string \<times> bool list \<Rightarrow> string \<times> bool list" where
  "yellows g a i st =
     (case st of (res, used) \<Rightarrow>
        if res ! i = CHR ''2'' then (res, used)
        else (case find (\<lambda>j. \<not> used ! j \<and> char_at a j = char_at g i) [0..<5] of
                None \<Rightarrow> (res, used)
              | Some j \<Rightarrow> (res[i := CHR ''1''], used[j := True])))"

definition patternOf :: "string \<Rightarrow> string \<Rightarrow> string" where
  "patternOf guess answer =
     fst (fold (yellows guess answer) [0..<5]
            (fold (greens guess answer) [0..<5] (replicate 5 CHR ''0'', replicate 5 False)))"

definition patternFor :: "string \<Rightarrow> string \<Rightarrow> string" where
  "patternFor g a =
     fst (fold (yellows g a) [0..<5]
            (fold (greens g a) [0..<5] (replicate 5 CHR ''0'', replicate 5 False)))"

text \<open>
  \<open>patternFor\<close> of the table generator: greens with a used array, then the counts of
  the unused answer letters, then yellows by count on the positions still \<open>'0'\<close>.
\<close>

definition count_remaining :: "string \<Rightarrow> bool list \<Rightarrow> nat \<Rightarrow>
    (char option \<Rightarrow> nat) \<Rightarrow> (char option \<Rightarrow> nat)" where
  "count_remaining answer used i counts =
     (if \<not> used ! i then counts(char_at answer i := counts (char_at answer i) + 1) else counts)"

definition yellows_by_count :: "string \<Rightarrow> nat \<Rightarrow>
    string \<times> (char option \<Rightarrow> nat) \<Rightarrow> string \<times> (char option \<Rightarrow> nat)" where
  "yellows_by_count guess i st =
     (case st of (res, counts) \<Rightarrow>
        if res ! i = CHR ''0'' then
          (if counts (char_at guess i) > 0
           then (res[i := CHR ''1''], counts(char_at guess i := counts (char_at guess i) - 1))
           else (res, counts))
        else (res, counts))"

definition patternFor_counts :: "string \<Rightarrow> string \<Rightarrow> string" where
  "patternFor_counts guess answer =
     (case fold (greens guess answer) [0..<5] (replicate 5 CHR ''0'', replicate 5 False) of
        (res, used) \<Rightarrow>
          fst (fold (yellows_by_count guess) [0..<5]
                 (res, fold (count_remaining answer used) [0..<5] (\<lambda>_. 0))))"


text \<open>
  The two-pass algorithm in the words of the specification: pass 1 marks the matching
  positions as correct and collects, per letter, the count of secret letters not
  matched; pass 2 scans the guess left to right and marks a still unresolved letter as
  present elsewhere when its letter has a remaining count (which it decrements), else
  as absent.
\<close>

datatype mark = Absent | PresentElsewhere | Correct

fun mark_code :: "mark \<Rightarrow> char" where
  "mark_code Absent = CHR ''0''"
| "mark_code PresentElsewhere = CHR ''1''"
| "mark_code Correct = CHR ''2''"

definition spec_unmatched :: "string \<Rightarrow> string \<Rightarrow> char \<Rightarrow> nat" where
  "spec_unmatched guess secret c =
     length (filter (\<lambda>(gc, sc). gc \<noteq> sc \<and> sc = c) (zip guess secret))"

fun spec_pass2 :: "(char \<times> char) list \<Rightarrow> (char \<Rightarrow> nat) \<Rightarrow> mark list" where
  "spec_pass2 [] remaining = []"
| "spec_pass2 ((gc, sc) # rest) remaining =
     (if gc = sc then Correct # spec_pass2 rest remaining
      else if remaining gc > 0
        then PresentElsewhere # spec_pass2 rest (remaining(gc := remaining gc - 1))
        else Absent # spec_pass2 rest remaining)"

definition spec_compute :: "string \<Rightarrow> string \<Rightarrow> string" where
  "spec_compute guess secret =
     map mark_code (spec_pass2 (zip guess secret) (spec_unmatched guess secret))"

section \<open>Partition of a candidate set\<close>

text \<open>
  A JavaScript \<open>Map\<close> from pattern to array keeps its keys in insertion order; it is
  an association list here. \<open>bucket_push\<close> is the body of every partition loop:
  \<open>arr = map.get(p); if (!arr) { arr = []; map.set(p, arr) }; arr.push(x)\<close>.
\<close>

fun bucket_push :: "'p \<Rightarrow> 'x \<Rightarrow> ('p \<times> 'x list) list \<Rightarrow> ('p \<times> 'x list) list" where
  "bucket_push p x [] = [(p, [x])]"
| "bucket_push p x ((q, arr) # m) =
     (if q = p then (q, arr @ [x]) # m else (q, arr) # bucket_push p x m)"

fun partition_loop :: "('x \<Rightarrow> 'p) \<Rightarrow> 'x list \<Rightarrow> ('p \<times> 'x list) list \<Rightarrow> ('p \<times> 'x list) list" where
  "partition_loop pat [] m = m"
| "partition_loop pat (ans # S) m = partition_loop pat S (bucket_push (pat ans) ans m)"

text \<open>\<open>partitionByPattern\<close> of \<open>main.js\<close>, over words.\<close>

definition partitionByPattern :: "string list \<Rightarrow> string \<Rightarrow> (string \<times> string list) list" where
  "partitionByPattern S guess = partition_loop (\<lambda>ans. pattern guess ans) S []"

text \<open>
  The solvers work on indices into the word list and read the precomputed table
  \<open>PAT[g][a]\<close> (\<open>patternMatrix\<close> in \<open>dp_solver.js\<close>), a function of two indices here.
  \<open>buildTable\<close> is the table the scripts fill from their word list.
\<close>

type_synonym table = "nat \<Rightarrow> nat \<Rightarrow> string"

definition buildTable :: "(string \<Rightarrow> string \<Rightarrow> string) \<Rightarrow> string list \<Rightarrow> table" where
  "buildTable pat WORDS = (\<lambda>i j. pat (WORDS ! i) (WORDS ! j))"

text \<open>\<open>partitionState\<close> of \<open>dp_solver.js\<close>; the other solvers have the same loop inline.\<close>

definition partitionState :: "table \<Rightarrow> nat list \<Rightarrow> nat \<Rightarrow> (string \<times> nat list) list" where
  "partitionState patternMatrix SIndices guessIdx =
     partition_loop (\<lambda>ansIdx. patternMatrix guessIdx ansIdx) SIndices []"

section \<open>Numbers and the memo\<close>

text \<open>
  Expected values are JavaScript numbers. They are modelled by exact rationals (rounding
  is not modelled) together with \<open>Infinity\<close>, the initial value of every running
  minimum. \<open>NaN\<close> is not modelled: the only products are of a probability
  \<open>arr.length / size\<close>, positive and finite, with a solver value.
\<close>

datatype jsnum = Num rat | Infinity

fun jadd :: "jsnum \<Rightarrow> jsnum \<Rightarrow> jsnum" where
  "jadd (Num a) (Num b) = Num (a + b)"
| "jadd _ _ = Infinity"

fun jmul :: "jsnum \<Rightarrow> jsnum \<Rightarrow> jsnum" where
  "jmul (Num a) (Num b) = Num (a * b)"
| "jmul _ _ = Infinity"

fun jlt :: "jsnum \<Rightarrow> jsnum \<Rightarrow> bool" where
  "jlt (Num a) (Num b) = (a < b)"
| "jlt (Num a) Infinity = True"
| "jlt Infinity _ = False"

fun jge :: "jsnum \<Rightarrow> jsnum \<Rightarrow> bool" where
  "jge (Num a) (Num b) = (a \<ge> b)"
| "jge Infinity _ = True"
| "jge (Num a) Infinity = False"

definition prob :: "nat \<Rightarrow> nat \<Rightarrow> jsnum" where
  "prob bucketSize n = Num (of_nat bucketSize / of_nat n)"

text \<open>
  The memo is a \<open>Map\<close> from the key \<open>cands.join(',')\<close> to a number. The key is
  modelled by the index list itself (joining decimal numbers with commas is injective).
  \<open>memo_set\<close> is \<open>Map.set\<close>: an existing key keeps its place, a new key goes last.
\<close>

type_synonym 'v memo = "(nat list \<times> 'v) list"

fun memo_set :: "'v memo \<Rightarrow> nat list \<Rightarrow> 'v \<Rightarrow> 'v memo" where
  "memo_set [] key v = [(key, v)]"
| "memo_set ((k, w) # m) key v = (if k = key then (k, v) # m else (k, w) # memo_set m key v)"

text \<open>
  \<open>memoStore\<close> of \<open>dp_top_blocks.js\<close>: when the memo holds \<open>MAX_MEMO_ENTRIES\<close>
  entries or more, the oldest \<open>max(1, floor(MAX_MEMO_ENTRIES * 0.10))\<close> of them are
  deleted in insertion order before the new entry is set. The capacity is a parameter;
  the script fixes it to \<open>8000000\<close>.
\<close>

definition MAX_MEMO_ENTRIES :: nat where
  "MAX_MEMO_ENTRIES = 8000000"

definition memoStore :: "nat \<Rightarrow> jsnum memo \<Rightarrow> nat list \<Rightarrow> jsnum \<Rightarrow> jsnum memo" where
  "memoStore cap memo key v =
     (if length memo \<ge> cap
      then memo_set (drop (max 1 (cap div 10)) memo) key v
      else memo_set memo key v)"


section \<open>The exact solvers\<close>

text \<open>
  Every solver is a recursion on candidate sets whose termination depends on the table,
  so the models take fuel: \<open>None\<close> stands for a recursion that does not return. The
  module-level memo is threaded through the calls as explicit state. The write-only
  bookkeeping (\<open>statesEvaluated\<close>, the \<open>choice\<close> map and the log lines) is left out:
  no solver reads it back.
\<close>

type_synonym 'v solver = "'v memo \<Rightarrow> nat list \<Rightarrow> ('v \<times> 'v memo) option"

subsection \<open>\<open>solveTail\<close> of \<open>dp_top_blocks.js\<close> (bounded memo)\<close>

fun solveTail_buckets :: "jsnum solver \<Rightarrow> nat \<Rightarrow> jsnum \<Rightarrow> nat list list \<Rightarrow> jsnum \<Rightarrow>
    jsnum memo \<Rightarrow> (jsnum \<times> jsnum memo) option" where
  "solveTail_buckets rec n bestE [] expectedTail memo = Some (expectedTail, memo)"
| "solveTail_buckets rec n bestE (arr # rest) expectedTail memo =
     (case rec memo arr of
        None \<Rightarrow> None
      | Some (subE, memo') \<Rightarrow>
          (let expectedTail' = jadd expectedTail (jmul (prob (length arr) n) subE) in
           if jge (jadd (Num 1) expectedTail') bestE then Some (expectedTail', memo')
           else solveTail_buckets rec n bestE rest expectedTail' memo'))"

fun solveTail_guesses :: "jsnum solver \<Rightarrow> table \<Rightarrow> nat list \<Rightarrow> nat list \<Rightarrow> jsnum \<Rightarrow>
    jsnum memo \<Rightarrow> (jsnum \<times> jsnum memo) option" where
  "solveTail_guesses rec PAT cands [] bestE memo = Some (bestE, memo)"
| "solveTail_guesses rec PAT cands (gIdx # gs) bestE memo =
     (case solveTail_buckets rec (length cands) bestE
             (map snd (partition_loop (\<lambda>ansIdx. PAT gIdx ansIdx) cands [])) (Num 0) memo of
        None \<Rightarrow> None
      | Some (expectedTail, memo') \<Rightarrow>
          (let totalE = jadd (Num 1) expectedTail in
           solveTail_guesses rec PAT cands gs (if jlt totalE bestE then totalE else bestE) memo'))"

text \<open>
  The body of \<open>solveTail\<close>, with the call that stores the result as a parameter:
  \<open>solveTail\<close> itself stores with \<open>memoStore\<close>.
\<close>

primrec solveTail_with :: "(jsnum memo \<Rightarrow> nat list \<Rightarrow> jsnum \<Rightarrow> jsnum memo) \<Rightarrow> nat \<Rightarrow> table \<Rightarrow>
    jsnum memo \<Rightarrow> nat list \<Rightarrow> (jsnum \<times> jsnum memo) option" where
  "solveTail_with store 0 PAT memo cands = None"
| "solveTail_with store (Suc fuel) PAT memo cands =
     (if length cands \<le> 0 then Some (Num 0, memo)
      else if length cands = 1 then Some (Num 1, memo)
      else (case map_of memo cands of
              Some cached \<Rightarrow> Some (cached, memo)
            | None \<Rightarrow>
                (case solveTail_guesses (solveTail_with store fuel PAT) PAT cands cands
                        Infinity memo of
                   None \<Rightarrow> None
                 | Some (bestE, memo') \<Rightarrow> Some (bestE, store memo' cands bestE))))"

definition solveTail :: "nat \<Rightarrow> nat \<Rightarrow> table \<Rightarrow> jsnum memo \<Rightarrow> nat list \<Rightarrow>
    (jsnum \<times> jsnum memo) option" where
  "solveTail cap fuel PAT memo cands = solveTail_with (memoStore cap) fuel PAT memo cands"

text \<open>
  The two other caching regimes of the specification, for comparison: a memo that is
  never evicted (\<open>memo.set\<close>, as in the sibling scripts), and no memoization at all (the
  store is dropped and the memo stays empty, so that every lookup misses).
\<close>

definition solveTail_unbounded :: "nat \<Rightarrow> table \<Rightarrow> jsnum memo \<Rightarrow> nat list \<Rightarrow>
    (jsnum \<times> jsnum memo) option" where
  "solveTail_unbounded fuel PAT memo cands = solveTail_with memo_set fuel PAT memo cands"

definition solveTail_nomemo :: "nat \<Rightarrow> table \<Rightarrow> nat list \<Rightarrow> jsnum option" where
  "solveTail_nomemo fuel PAT cands =
     map_option fst (solveTail_with (\<lambda>memo key v. memo) fuel PAT [] cands)"

text \<open>\<open>solveWithFixedRoot\<close>: the root state is the whole list \<open>0 .. N-1\<close>.\<close>

fun root_buckets :: "jsnum solver \<Rightarrow> nat \<Rightarrow> nat list list \<Rightarrow> jsnum \<Rightarrow> jsnum memo \<Rightarrow>
    (jsnum \<times> jsnum memo) option" where
  "root_buckets rec n [] expectedTail memo = Some (expectedTail, memo)"
| "root_buckets rec n (arr # rest) expectedTail memo =
     (case rec memo arr of
        None \<Rightarrow> None
      | Some (subE, memo') \<Rightarrow>
          root_buckets rec n rest (jadd expectedTail (jmul (prob (length arr) n) subE)) memo')"

definition solveWithFixedRoot :: "nat \<Rightarrow> nat \<Rightarrow> table \<Rightarrow> nat \<Rightarrow> jsnum memo \<Rightarrow> nat \<Rightarrow>
    (jsnum \<times> jsnum memo) option" where
  "solveWithFixedRoot cap fuel PAT N memo gIdx =
     (case root_buckets (solveTail cap fuel PAT) N
             (map snd (partition_loop (\<lambda>j. PAT gIdx j) [0..<N] [])) (Num 0) memo of
        None \<Rightarrow> None
      | Some (expectedTail, memo') \<Rightarrow> Some (jadd (Num 1) expectedTail, memo'))"

subsection \<open>\<open>solveState\<close> and \<open>expectedGivenFirstGuess\<close> of \<open>main.js\<close>\<close>

fun solveState_main_buckets :: "jsnum solver \<Rightarrow> nat \<Rightarrow> jsnum \<Rightarrow> nat list list \<Rightarrow> jsnum \<Rightarrow>
    jsnum memo \<Rightarrow> (jsnum \<times> jsnum memo) option" where
  "solveState_main_buckets rec n bestE [] expectedSub memo = Some (expectedSub, memo)"
| "solveState_main_buckets rec n bestE (arr # rest) expectedSub memo =
     (case rec memo arr of
        None \<Rightarrow> None
      | Some (subE, memo') \<Rightarrow>
          (let expectedSub' = jadd expectedSub (jmul (prob (length arr) n) subE) in
           if jge (jadd expectedSub' (Num 1)) bestE then Some (Infinity, memo')
           else solveState_main_buckets rec n bestE rest expectedSub' memo'))"

fun solveState_main_guesses :: "jsnum solver \<Rightarrow> table \<Rightarrow> nat list \<Rightarrow> nat list \<Rightarrow> jsnum \<Rightarrow>
    jsnum memo \<Rightarrow> (jsnum \<times> jsnum memo) option" where
  "solveState_main_guesses rec PAT cands [] bestE memo = Some (bestE, memo)"
| "solveState_main_guesses rec PAT cands (gIdx # gs) bestE memo =
     (case solveState_main_buckets rec (length cands) bestE
             (map snd (partition_loop (\<lambda>ansIdx. PAT gIdx ansIdx) cands [])) (Num 0) memo of
        None \<Rightarrow> None
      | Some (expectedSub, memo') \<Rightarrow>
          (let totalE = jadd (Num 1) expectedSub in
           solveState_main_guesses rec PAT cands gs
             (if jlt totalE bestE then totalE else bestE) memo'))"

primrec solveState_main :: "nat \<Rightarrow> table \<Rightarrow> jsnum memo \<Rightarrow> nat list \<Rightarrow>
    (jsnum \<times> jsnum memo) option" where
  "solveState_main 0 PAT memo cands = None"
| "solveState_main (Suc fuel) PAT memo cands =
     (if length cands \<le> 0 then Some (Num 0, memo)
      else if length cands = 1 then Some (Num 1, memo)
      else (case map_of memo cands of
              Some cached \<Rightarrow> Some (cached, memo)
            | None \<Rightarrow>
                (case solveState_main_guesses (solveState_main fuel PAT) PAT cands cands
                        Infinity memo of
                   None \<Rightarrow> None
                 | Some (bestE, memo') \<Rightarrow> Some (bestE, memo_set memo' cands bestE))))"

definition expectedGivenFirstGuess :: "nat \<Rightarrow> table \<Rightarrow> jsnum memo \<Rightarrow> nat \<Rightarrow> nat list \<Rightarrow>
    (jsnum \<times> jsnum memo) option" where
  "expectedGivenFirstGuess fuel PAT memo rootIdx allCands =
     (case root_buckets (solveState_main fuel PAT) (length allCands)
             (map snd (partition_loop (\<lambda>ansIdx. PAT rootIdx ansIdx) allCands [])) (Num 0) memo of
        None \<Rightarrow> None
      | Some (Esub, memo') \<Rightarrow> Some (jadd (Num 1) Esub, memo'))"

subsection \<open>\<open>solveState\<close> of \<open>dp_solver.js\<close> (result objects, sorted keys)\<close>

record result =
  resValue :: jsnum
  resBestGuess :: int

definition stateKey :: "nat list \<Rightarrow> nat list" where
  "stateKey SIndices = sort SIndices"

fun solveState_dp_buckets :: "result solver \<Rightarrow> nat \<Rightarrow> jsnum \<Rightarrow> (string \<times> nat list) list \<Rightarrow>
    jsnum \<Rightarrow> result memo \<Rightarrow> (jsnum \<times> result memo) option" where
  "solveState_dp_buckets rec n bestValue [] expected dp = Some (expected, dp)"
| "solveState_dp_buckets rec n bestValue ((pat, bucket) # rest) expected dp =
     (case (if pat = ''22222''
            then Some (jadd expected (jmul (prob (length bucket) n) (Num 1)), dp)
            else (case rec dp bucket of
                    None \<Rightarrow> None
                  | Some (sub, dp') \<Rightarrow>
                      Some (jadd expected
                              (jmul (prob (length bucket) n) (jadd (Num 1) (resValue sub))), dp'))) of
        None \<Rightarrow> None
      | Some (expected', dp') \<Rightarrow>
          if jge expected' bestValue then Some (expected', dp')
          else solveState_dp_buckets rec n bestValue rest expected' dp')"

fun solveState_dp_guesses :: "result solver \<Rightarrow> table \<Rightarrow> nat list \<Rightarrow> nat list \<Rightarrow> result \<Rightarrow>
    result memo \<Rightarrow> (result \<times> result memo) option" where
  "solveState_dp_guesses rec patternMatrix SIndices [] best dp = Some (best, dp)"
| "solveState_dp_guesses rec patternMatrix SIndices (guessIdx # gs) best dp =
     (case solveState_dp_buckets rec (length SIndices) (resValue best)
             (partitionState patternMatrix SIndices guessIdx) (Num 0) dp of
        None \<Rightarrow> None
      | Some (expected, dp') \<Rightarrow>
          solveState_dp_guesses rec patternMatrix SIndices gs
            (if jlt expected (resValue best)
             then \<lparr>resValue = expected, resBestGuess = int guessIdx\<rparr> else best) dp')"

primrec solveState_dp :: "nat \<Rightarrow> table \<Rightarrow> result memo \<Rightarrow> nat list \<Rightarrow>
    (result \<times> result memo) option" where
  "solveState_dp 0 patternMatrix dp SIndices = None"
| "solveState_dp (Suc fuel) patternMatrix dp SIndices =
     (if length SIndices = 0 then Some (\<lparr>resValue = Num 0, resBestGuess = - 1\<rparr>, dp)
      else if length SIndices = 1
        then Some (\<lparr>resValue = Num 1, resBestGuess = int (hd SIndices)\<rparr>, dp)
      else (case map_of dp (stateKey SIndices) of
              Some cached \<Rightarrow> Some (cached, dp)
            | None \<Rightarrow>
                (case solveState_dp_guesses (solveState_dp fuel patternMatrix) patternMatrix
                        SIndices SIndices \<lparr>resValue = Infinity, resBestGuess = - 1\<rparr> dp of
                   None \<Rightarrow> None
                 | Some (best, dp') \<Rightarrow> Some (best, memo_set dp' (stateKey SIndices) best))))"

subsection \<open>\<open>solveState\<close> and \<open>expectedWithRoot\<close> of \<open>dp_top200.js\<close>\<close>

fun solveState_top_buckets :: "jsnum solver \<Rightarrow> nat \<Rightarrow> jsnum \<Rightarrow> (string \<times> nat list) list \<Rightarrow>
    jsnum \<Rightarrow> jsnum memo \<Rightarrow> (jsnum \<times> jsnum memo) option" where
  "solveState_top_buckets rec n bestE [] expectedSub memo = Some (expectedSub, memo)"
| "solveState_top_buckets rec n bestE ((pat, arr) # rest) expectedSub memo =
     (if pat = ''22222'' then solveState_top_buckets rec n bestE rest expectedSub memo
      else (case rec memo arr of
              None \<Rightarrow> None
            | Some (subE, memo') \<Rightarrow>
                (let expectedSub' = jadd expectedSub (jmul (prob (length arr) n) subE) in
                 if jge (jadd (Num 1) expectedSub') bestE then Some (expectedSub', memo')
                 else solveState_top_buckets rec n bestE rest expectedSub' memo')))"

fun solveState_top_guesses :: "jsnum solver \<Rightarrow> table \<Rightarrow> nat list \<Rightarrow> nat list \<Rightarrow> jsnum \<Rightarrow>
    jsnum memo \<Rightarrow> (jsnum \<times> jsnum memo) option" where
  "solveState_top_guesses rec PAT cands [] bestE memo = Some (bestE, memo)"
| "solveState_top_guesses rec PAT cands (gIdx # gs) bestE memo =
     (case solveState_top_buckets rec (length cands) bestE
             (partition_loop (\<lambda>ansIdx. PAT gIdx ansIdx) cands []) (Num 0) memo of
        None \<Rightarrow> None
      | Some (expectedSub, memo') \<Rightarrow>
          (let totalE = jadd (Num 1) expectedSub in
           solveState_top_guesses rec PAT cands gs
             (if jlt totalE bestE then totalE else bestE) memo'))"

primrec solveState_top :: "nat \<Rightarrow> table \<Rightarrow> jsnum memo \<Rightarrow> nat list \<Rightarrow>
    (jsnum \<times> jsnum memo) option" where
  "solveState_top 0 PAT memo cands = None"
| "solveState_top (Suc fuel) PAT memo cands =
     (if length cands \<le> 0 then Some (Num 0, memo)
      else if length cands = 1 then Some (Num 1, memo)
      else (case map_of memo cands of
              Some cached \<Rightarrow> Some (cached, memo)
            | None \<Rightarrow>
                (case solveState_top_guesses (solveState_top fuel PAT) PAT cands cands
                        Infinity memo of
                   None \<Rightarrow> None
                 | Some (bestE, memo') \<Rightarrow> Some (bestE, memo_set memo' cands bestE))))"

fun expectedWithRoot_buckets :: "jsnum solver \<Rightarrow> nat \<Rightarrow> (string \<times> nat list) list \<Rightarrow> jsnum \<Rightarrow>
    jsnum memo \<Rightarrow> (jsnum \<times> jsnum memo) option" where
  "expectedWithRoot_buckets rec n [] expectedSub memo = Some (expectedSub, memo)"
| "expectedWithRoot_buckets rec n ((pat, arr) # rest) expectedSub memo =
     (if pat = ''22222'' then expectedWithRoot_buckets rec n rest expectedSub memo
      else (case rec memo arr of
              None \<Rightarrow> None
            | Some (subE, memo') \<Rightarrow>
                expectedWithRoot_buckets rec n rest
                  (jadd expectedSub (jmul (prob (length arr) n) subE)) memo'))"

definition expectedWithRoot :: "nat \<Rightarrow> table \<Rightarrow> nat \<Rightarrow> jsnum memo \<Rightarrow> nat \<Rightarrow>
    (jsnum \<times> jsnum memo) option" where
  "expectedWithRoot fuel PAT N memo rootIdx =
     (case expectedWithRoot_buckets (solveState_top fuel PAT) N
             (partition_loop (\<lambda>ansIdx. PAT rootIdx ansIdx) [0..<N] []) (Num 0) memo of
        None \<Rightarrow> None
      | Some (expectedSub, memo') \<Rightarrow> Some (jadd (Num 1) expectedSub, memo'))"

section \<open>Reference values and invariants used in the proofs\<close>

text \<open>
  The relation between the state of the count-based pass 2 and the state of the
  used-array pass 2, and the invariant of the count-based pass 2 after \<open>n\<close> positions.
\<close>

definition rel_cu :: "string \<Rightarrow> string \<times> (char option \<Rightarrow> nat) \<Rightarrow> string \<times> bool list \<Rightarrow> bool" where
  "rel_cu a s s' = (fst s = fst s' \<and> length (fst s) = 5 \<and> length (snd s') = 5 \<and>
     (\<forall>k. snd s k = card {j. j < 5 \<and> \<not> snd s' ! j \<and> char_at a j = k}))"


definition inv2 :: "string \<Rightarrow> string \<Rightarrow> nat \<Rightarrow> string \<times> (char option \<Rightarrow> nat) \<Rightarrow> bool" where
  "inv2 g a n s = (length (fst s) = 5 \<and>
     (\<forall>i<5. (fst s ! i = CHR ''2'') = (char_at a i = char_at g i)) \<and>
     (\<forall>i<5. n \<le> i \<longrightarrow> fst s ! i = (if char_at a i = char_at g i then CHR ''2'' else CHR ''0'')) \<and>
     (\<forall>i<5. fst s ! i = CHR ''0'' \<or> fst s ! i = CHR ''1'' \<or> fst s ! i = CHR ''2'') \<and>
     (\<forall>k. card {i. i < n \<and> char_at g i = k \<and> fst s ! i = CHR ''1''} + snd s k
          = card {j. j < 5 \<and> char_at a j \<noteq> char_at g j \<and> char_at a j = k}))"

text \<open>
  \<open>buckets\<close> are the values of the partition map, in insertion order. \<open>table_ok\<close> is
  what a table built from pairwise distinct five-letter words gives: the all-correct
  code \<open>22222\<close> exactly on the diagonal. A candidate set is \<open>wellformed\<close> when its
  indices are pairwise distinct and the table is of that kind on it.

  \<open>E_all\<close> is the recurrence of the solvers that pass every bucket to the recursion
  (\<open>1 + \<Sum> p * E(bucket)\<close>), \<open>E_skip\<close> the recurrence of the solvers that skip the
  all-correct bucket; both are minimised over the guesses in the set. The test
  \<open>length arr < length S\<close> only makes the definitions total: it holds for every bucket of
  a wellformed set.
\<close>

definition buckets :: "table \<Rightarrow> nat list \<Rightarrow> nat \<Rightarrow> nat list list" where
  "buckets P S g = map snd (partition_loop (\<lambda>a. P g a) S [])"

function E_all :: "table \<Rightarrow> nat list \<Rightarrow> rat" where
  "E_all P S =
     (if length S \<le> 1 then of_nat (length S)
      else Min (set (map (\<lambda>g. 1 + sum_list (map (\<lambda>arr. of_nat (length arr) / of_nat (length S) *
                  (if length arr < length S then E_all P arr else 1)) (buckets P S g))) S)))"
  by pat_completeness auto
termination
  by (relation "measure (\<lambda>(P, S). length S)") auto

function E_skip :: "table \<Rightarrow> nat list \<Rightarrow> rat" where
  "E_skip P S =
     (if length S \<le> 1 then of_nat (length S)
      else Min (set (map (\<lambda>g. 1 + sum_list (map (\<lambda>b. if fst b = ''22222'' then 0 else of_nat (length (snd b)) / of_nat (length S) *
                  (if length (snd b) < length S then E_skip P (snd b) else 1)) (partition_loop (\<lambda>a. P g a) S []))) S)))"
  by pat_completeness auto
termination
  by (relation "measure (\<lambda>(P, S). length S)") auto


definition part_inv :: "('x \<Rightarrow> 'p) \<Rightarrow> ('p \<times> 'x list) list \<Rightarrow> 'x list \<Rightarrow> bool" where
  "part_inv key m xs = (distinct (map fst m) \<and>
     (\<forall>b\<in>set m. snd b \<noteq> [] \<and> snd b = filter (\<lambda>y. key y = fst b) xs) \<and>
     (\<forall>y\<in>set xs. key y \<in> fst ` set m))"

definition table_ok :: "table \<Rightarrow> nat list \<Rightarrow> bool" where
  "table_ok P S = (\<forall>g\<in>set S. \<forall>a\<in>set S. (P g a = ''22222'') = (a = g))"

definition wellformed :: "table \<Rightarrow> nat list \<Rightarrow> bool" where
  "wellformed P S = (distinct S \<and> table_ok P S)"

definition cost_all :: "(nat list \<Rightarrow> rat) \<Rightarrow> table \<Rightarrow> nat list \<Rightarrow> nat \<Rightarrow> rat" where
  "cost_all R P S g =
     1 + sum_list (map (\<lambda>arr. of_nat (length arr) / of_nat (length S) * R arr) (buckets P S g))"

text \<open>
  What the specification asks of the buckets of one partition. The result is a \<open>Map\<close>
  keyed by feedback code: no code occurs twice, and the bucket of a code holds exactly
  the elements of the set with that code, in the order of the set.
\<close>

definition is_partition :: "('x \<Rightarrow> 'p) \<Rightarrow> 'x list \<Rightarrow> ('p \<times> 'x list) list \<Rightarrow> bool" where
  "is_partition code S m =
     (distinct (map fst m) \<and>
      (\<forall>b\<in>set m. snd b = filter (\<lambda>y. code y = fst b) S) \<and>
      (\<forall>b\<in>set m. snd b \<noteq> [] \<and> set (snd b) \<subseteq> set S) \<and>
      (\<forall>b\<in>set m. \<forall>b'\<in>set m. b \<noteq> b' \<longrightarrow> set (snd b) \<inter> set (snd b') = {}) \<and>
      (\<forall>x\<in>set S. \<exists>!b. b \<in> set m \<and> x \<in> set (snd b)) \<and>
      (\<forall>x\<in>set S. \<forall>b\<in>set m. x \<in> set (snd b) \<longrightarrow> fst b = code x) \<and>
      sum_list (map (\<lambda>b. length (snd b)) m) = length S)"

text \<open>
  For the proofs about the solvers: the running minimum of the guess loop as a fold
  (\<open>jmin\<close>), what a store function may do to the memo (\<open>store_ok\<close>), the contract of
  the recursive calls (\<open>rec_ok\<close>), and the memo invariant (\<open>memo_inv_all\<close>).

  \<open>unpruned_all\<close> is the solver of the specification's recurrence without memo and
  without branch-and-bound: it always sums every bucket. \<open>memo_holds solver\<close> says
  that every memo entry holds what \<open>solver\<close> returns for its key
  (\<open>memo_holds_dp\<close> for the result objects of \<open>dp_solver.js\<close>, whose keys are sorted).

  \<open>cost_skip\<close>, \<open>cost_dp\<close>, \<open>memo_inv_skip\<close>, \<open>rec_ok_dp\<close> and \<open>memo_inv_dp\<close> are
  the same notions for the solvers in which the all-correct bucket ends the game;
  \<open>unpruned_dp\<close> is the loop of \<open>solveState\<close> of \<open>dp_solver.js\<close> without memo and
  without the early exit. \<open>value_main\<close>, \<open>value_top\<close> and \<open>value_dp\<close> are the values
  that the solvers return from the empty memo.
\<close>

definition jmin :: "jsnum \<Rightarrow> rat \<Rightarrow> jsnum" where
  "jmin b c = (if jlt (Num c) b then Num c else b)"

definition store_ok :: "(jsnum memo \<Rightarrow> nat list \<Rightarrow> jsnum \<Rightarrow> jsnum memo) \<Rightarrow> bool" where
  "store_ok store = (\<forall>m k v. set (store m k v) \<subseteq> insert (k, v) (set m))"

definition rec_ok :: "(jsnum memo \<Rightarrow> bool) \<Rightarrow> (nat list \<Rightarrow> rat) \<Rightarrow> jsnum solver \<Rightarrow> nat list set \<Rightarrow> bool" where
  "rec_ok I R rec A = (\<forall>arr\<in>A. \<forall>m. I m \<longrightarrow>
      (\<exists>m'. rec m arr = Some (Num (R arr), m') \<and> I m'))"

definition memo_inv_all :: "table \<Rightarrow> jsnum memo \<Rightarrow> bool" where
  "memo_inv_all P m = (\<forall>e\<in>set m. wellformed P (fst e) \<and> snd e = Num (E_all P (fst e)))"

fun unpruned_all_buckets :: "(nat list \<Rightarrow> jsnum option) \<Rightarrow> nat \<Rightarrow> nat list list \<Rightarrow> jsnum \<Rightarrow>
    jsnum option" where
  "unpruned_all_buckets rec n [] expected = Some expected"
| "unpruned_all_buckets rec n (arr # rest) expected =
     (case rec arr of
        None \<Rightarrow> None
      | Some subE \<Rightarrow>
          unpruned_all_buckets rec n rest (jadd expected (jmul (prob (length arr) n) subE)))"

fun unpruned_all_guesses :: "(nat list \<Rightarrow> jsnum option) \<Rightarrow> table \<Rightarrow> nat list \<Rightarrow> nat list \<Rightarrow>
    jsnum \<Rightarrow> jsnum option" where
  "unpruned_all_guesses rec PAT cands [] bestE = Some bestE"
| "unpruned_all_guesses rec PAT cands (gIdx # gs) bestE =
     (case unpruned_all_buckets rec (length cands)
             (map snd (partition_loop (\<lambda>ansIdx. PAT gIdx ansIdx) cands [])) (Num 0) of
        None \<Rightarrow> None
      | Some expected \<Rightarrow>
          (let totalE = jadd (Num 1) expected in
           unpruned_all_guesses rec PAT cands gs (if jlt totalE bestE then totalE else bestE)))"

primrec unpruned_all :: "nat \<Rightarrow> table \<Rightarrow> nat list \<Rightarrow> jsnum option" where
  "unpruned_all 0 PAT cands = None"
| "unpruned_all (Suc fuel) PAT cands =
     (if length cands \<le> 0 then Some (Num 0)
      else if length cands = 1 then Some (Num 1)
      else unpruned_all_guesses (unpruned_all fuel PAT) PAT cands cands Infinity)"

definition rec_okU :: "(nat list \<Rightarrow> rat) \<Rightarrow> (nat list \<Rightarrow> jsnum option) \<Rightarrow> nat list set \<Rightarrow> bool" where
  "rec_okU R rec A = (\<forall>arr\<in>A. rec arr = Some (Num (R arr)))"

definition memo_holds :: "(nat \<Rightarrow> table \<Rightarrow> nat list \<Rightarrow> jsnum option) \<Rightarrow> table \<Rightarrow> jsnum memo \<Rightarrow> bool" where
  "memo_holds solver P m =
     (\<forall>e\<in>set m. wellformed P (fst e) \<and> solver (Suc (length (fst e))) P (fst e) = Some (snd e))"

definition words3 :: "string list" where
  "words3 = [''allow'', ''llama'', ''alloy'']"

definition words2 :: "string list" where
  "words2 = [''allow'', ''llama'']"

definition cost_skip :: "(nat list \<Rightarrow> rat) \<Rightarrow> table \<Rightarrow> nat list \<Rightarrow> nat \<Rightarrow> rat" where
  "cost_skip R P S g =
     1 + sum_list (map (\<lambda>b. if fst b = ''22222'' then 0
                              else of_nat (length (snd b)) / of_nat (length S) * R (snd b))
                    (partition_loop (\<lambda>a. P g a) S []))"

definition memo_inv_skip :: "table \<Rightarrow> jsnum memo \<Rightarrow> bool" where
  "memo_inv_skip P m = (\<forall>e\<in>set m. wellformed P (fst e) \<and> snd e = Num (E_skip P (fst e)))"

definition rec_ok_dp :: "(result memo \<Rightarrow> bool) \<Rightarrow> (nat list \<Rightarrow> rat) \<Rightarrow> result solver \<Rightarrow>
    nat list set \<Rightarrow> bool" where
  "rec_ok_dp I R rec A = (\<forall>arr\<in>A. \<forall>m. I m \<longrightarrow>
      (\<exists>r m'. rec m arr = Some (r, m') \<and> resValue r = Num (R arr) \<and> I m'))"

definition memo_inv_dp :: "table \<Rightarrow> result memo \<Rightarrow> bool" where
  "memo_inv_dp P m = (\<forall>e\<in>set m. sorted (fst e) \<and> wellformed P (fst e) \<and>
      resValue (snd e) = Num (E_skip P (fst e)))"

definition cost_dp :: "(nat list \<Rightarrow> rat) \<Rightarrow> table \<Rightarrow> nat list \<Rightarrow> nat \<Rightarrow> rat" where
  "cost_dp R P S g =
     sum_list (map (\<lambda>b. if fst b = ''22222''
                         then of_nat (length (snd b)) / of_nat (length S) * 1
                         else of_nat (length (snd b)) / of_nat (length S) * (1 + R (snd b)))
                (partitionState P S g))"

fun unpruned_dp_buckets :: "(nat list \<Rightarrow> jsnum option) \<Rightarrow> nat \<Rightarrow> (string \<times> nat list) list \<Rightarrow>
    jsnum \<Rightarrow> jsnum option" where
  "unpruned_dp_buckets rec n [] expected = Some expected"
| "unpruned_dp_buckets rec n ((pat, bucket) # rest) expected =
     (if pat = ''22222''
      then unpruned_dp_buckets rec n rest (jadd expected (jmul (prob (length bucket) n) (Num 1)))
      else (case rec bucket of
              None \<Rightarrow> None
            | Some sub \<Rightarrow>
                unpruned_dp_buckets rec n rest
                  (jadd expected (jmul (prob (length bucket) n) (jadd (Num 1) sub)))))"

fun unpruned_dp_guesses :: "(nat list \<Rightarrow> jsnum option) \<Rightarrow> table \<Rightarrow> nat list \<Rightarrow> nat list \<Rightarrow>
    jsnum \<Rightarrow> jsnum option" where
  "unpruned_dp_guesses rec patternMatrix SIndices [] bestValue = Some bestValue"
| "unpruned_dp_guesses rec patternMatrix SIndices (guessIdx # gs) bestValue =
     (case unpruned_dp_buckets rec (length SIndices)
             (partitionState patternMatrix SIndices guessIdx) (Num 0) of
        None \<Rightarrow> None
      | Some expected \<Rightarrow>
          unpruned_dp_guesses rec patternMatrix SIndices gs
            (if jlt expected bestValue then expected else bestValue))"

primrec unpruned_dp :: "nat \<Rightarrow> table \<Rightarrow> nat list \<Rightarrow> jsnum option" where
  "unpruned_dp 0 patternMatrix SIndices = None"
| "unpruned_dp (Suc fuel) patternMatrix SIndices =
     (if length SIndices = 0 then Some (Num 0)
      else if length SIndices = 1 then Some (Num 1)
      else unpruned_dp_guesses (unpruned_dp fuel patternMatrix) patternMatrix
             SIndices SIndices Infinity)"

definition value_main :: "nat \<Rightarrow> table \<Rightarrow> nat list \<Rightarrow> jsnum option" where
  "value_main fuel P S = map_option fst (solveState_main fuel P [] S)"

definition value_top :: "nat \<Rightarrow> table \<Rightarrow> nat list \<Rightarrow> jsnum option" where
  "value_top fuel P S = map_option fst (solveState_top fuel P [] S)"

definition value_dp :: "nat \<Rightarrow> table \<Rightarrow> nat list \<Rightarrow> jsnum option" where
  "value_dp fuel P S = map_option (\<lambda>r. resValue (fst r)) (solveState_dp fuel P [] S)"

definition memo_holds_dp :: "(nat \<Rightarrow> table \<Rightarrow> nat list \<Rightarrow> jsnum option) \<Rightarrow> table \<Rightarrow> result memo \<Rightarrow> bool" where
  "memo_holds_dp solver P m =
     (\<forall>e\<in>set m. sorted (fst e) \<and> wellformed P (fst e) \<and>
        solver (Suc (length (fst e))) P (fst e) = Some (resValue (snd e)))"

section \<open>Properties of the feedback computation\<close>

lemma fold_upt_Suc: "fold f [0..<Suc n] s = f n (fold f [0..<n] s)"
  by simp

lemma card_less_Suc_split:
  "card {j. j < Suc n \<and> Q j} = (if Q n then Suc (card {j. j < n \<and> Q j}) else card {j. j < n \<and> Q j})"
proof -
  have fin: "finite {j. j < n \<and> Q j}" by simp
  show ?thesis
  proof (cases "Q n")
    case True
    then have "{j. j < Suc n \<and> Q j} = insert n {j. j < n \<and> Q j}"
      by (auto simp: less_Suc_eq)
    then show ?thesis using True fin by simp
  next
    case False
    then have "{j. j < Suc n \<and> Q j} = {j. j < n \<and> Q j}"
      by (auto simp: less_Suc_eq)
    then show ?thesis using False by simp
  qed
qed

lemma pass1_state:
  "n \<le> 5 \<Longrightarrow> fold (pattern_pass1 g a) [0..<n] (replicate 5 CHR ''0'', \<lambda>_. 0) =
     (map (\<lambda>i. if i < n \<and> char_at a i = char_at g i then CHR ''2'' else CHR ''0'') [0..<5],
      \<lambda>k. card {j. j < n \<and> char_at a j \<noteq> char_at g j \<and> char_at a j = k})"
proof (induction n)
  case 0
  show ?case by (simp add: map_replicate_const[symmetric] del: upt_Suc) (simp add: map_replicate_const)
next
  case (Suc n)
  then have n: "n < 5" by simp
  have IH: "fold (pattern_pass1 g a) [0..<n] (replicate 5 CHR ''0'', \<lambda>_. 0) =
     (map (\<lambda>i. if i < n \<and> char_at a i = char_at g i then CHR ''2'' else CHR ''0'') [0..<5],
      \<lambda>k. card {j. j < n \<and> char_at a j \<noteq> char_at g j \<and> char_at a j = k})"
    using Suc by simp
  show ?case
  proof (cases "char_at a n = char_at g n")
    case True
    have "(map (\<lambda>i. if i < n \<and> char_at a i = char_at g i then CHR ''2'' else CHR ''0'') [0..<5])[n := CHR ''2'']
        = map (\<lambda>i. if i < Suc n \<and> char_at a i = char_at g i then CHR ''2'' else CHR ''0'') [0..<5]"
      using n True by (intro nth_equalityI) (auto simp: nth_list_update less_Suc_eq simp del: upt_Suc)
    moreover have "(\<lambda>k. card {j. j < n \<and> char_at a j \<noteq> char_at g j \<and> char_at a j = k})
        = (\<lambda>k. card {j. j < Suc n \<and> char_at a j \<noteq> char_at g j \<and> char_at a j = k})"
      using True by (simp add: card_less_Suc_split)
    ultimately show ?thesis using True by (simp only: fold_upt_Suc IH) (simp add: pattern_pass1_def)
  next
    case False
    have "(map (\<lambda>i. if i < n \<and> char_at a i = char_at g i then CHR ''2'' else CHR ''0'') [0..<5])
        = map (\<lambda>i. if i < Suc n \<and> char_at a i = char_at g i then CHR ''2'' else CHR ''0'') [0..<5]"
      using False by (auto simp: less_Suc_eq simp del: upt_Suc)
    moreover have "(\<lambda>k. card {j. j < n \<and> char_at a j \<noteq> char_at g j \<and> char_at a j = k})
           (char_at a n := card {j. j < n \<and> char_at a j \<noteq> char_at g j \<and> char_at a j = char_at a n} + 1)
        = (\<lambda>k. card {j. j < Suc n \<and> char_at a j \<noteq> char_at g j \<and> char_at a j = k})"
      using False by (auto simp: card_less_Suc_split fun_eq_iff)
    ultimately show ?thesis using False by (simp only: fold_upt_Suc IH) (simp add: pattern_pass1_def)
  qed
qed

lemma greens_state:
  "n \<le> 5 \<Longrightarrow> fold (greens g a) [0..<n] (replicate 5 CHR ''0'', replicate 5 False) =
     (map (\<lambda>i. if i < n \<and> char_at a i = char_at g i then CHR ''2'' else CHR ''0'') [0..<5],
      map (\<lambda>i. i < n \<and> char_at a i = char_at g i) [0..<5])"
proof (induction n)
  case 0
  show ?case by (simp add: map_replicate_const[symmetric] del: upt_Suc) (simp add: map_replicate_const)
next
  case (Suc n)
  then have n: "n < 5" by simp
  have IH: "fold (greens g a) [0..<n] (replicate 5 CHR ''0'', replicate 5 False) =
     (map (\<lambda>i. if i < n \<and> char_at a i = char_at g i then CHR ''2'' else CHR ''0'') [0..<5],
      map (\<lambda>i. i < n \<and> char_at a i = char_at g i) [0..<5])"
    using Suc by simp
  show ?case
  proof (cases "char_at a n = char_at g n")
    case True
    have "(map (\<lambda>i. if i < n \<and> char_at a i = char_at g i then CHR ''2'' else CHR ''0'') [0..<5])[n := CHR ''2'']
        = map (\<lambda>i. if i < Suc n \<and> char_at a i = char_at g i then CHR ''2'' else CHR ''0'') [0..<5]"
      using n True by (intro nth_equalityI) (auto simp: nth_list_update less_Suc_eq simp del: upt_Suc)
    moreover have "(map (\<lambda>i. i < n \<and> char_at a i = char_at g i) [0..<5])[n := True]
        = map (\<lambda>i. i < Suc n \<and> char_at a i = char_at g i) [0..<5]"
      using n True by (intro nth_equalityI) (auto simp: nth_list_update less_Suc_eq simp del: upt_Suc)
    ultimately show ?thesis using True by (simp only: fold_upt_Suc IH) (simp add: greens_def)
  next
    case False
    have "(map (\<lambda>i. if i < n \<and> char_at a i = char_at g i then CHR ''2'' else CHR ''0'') [0..<5])
        = map (\<lambda>i. if i < Suc n \<and> char_at a i = char_at g i then CHR ''2'' else CHR ''0'') [0..<5]"
      using False by (auto simp: less_Suc_eq simp del: upt_Suc)
    moreover have "(map (\<lambda>i. i < n \<and> char_at a i = char_at g i) [0..<5])
        = map (\<lambda>i. i < Suc n \<and> char_at a i = char_at g i) [0..<5]"
      using False by (auto simp: less_Suc_eq simp del: upt_Suc)
    ultimately show ?thesis using False by (simp only: fold_upt_Suc IH) (simp add: greens_def)
  qed
qed


lemma yellows_step_rel:
  assumes R: "rel_cu a s s'" and i: "i < 5"
  shows "rel_cu a (pattern_pass2 g i s) (yellows g a i s')"
proof -
  obtain res cnt where s: "s = (res, cnt)" by (cases s)
  obtain res' used where s': "s' = (res', used)" by (cases s')
  from R s s' have eq: "res' = res" and lr: "length res = 5" and lu: "length used = 5"
    and cnt: "\<And>k. cnt k = card {j. j < 5 \<and> \<not> used ! j \<and> char_at a j = k}"
    by (auto simp: rel_cu_def)
  let ?A = "\<lambda>u k. {j. j < 5 \<and> \<not> u ! j \<and> char_at a j = k}"
  have fin: "\<And>u k. finite (?A u k)" by simp
  show ?thesis
  proof (cases "res ! i = CHR ''2''")
    case True
    then show ?thesis using R s s' eq by (simp add: pattern_pass2_def yellows_def)
  next
    case False
    show ?thesis
    proof (cases "find (\<lambda>j. \<not> used ! j \<and> char_at a j = char_at g i) [0..<5]")
      case None
      then have "?A used (char_at g i) = {}"
        by (auto simp: find_None_iff simp del: upt_Suc)
      then have "cnt (char_at g i) = 0" using cnt by simp
      then show ?thesis using False None R s s' eq
        by (simp add: pattern_pass2_def yellows_def)
    next
      case (Some j)
      then have j: "j < 5" "\<not> used ! j" "char_at a j = char_at g i"
        by (auto simp: find_Some_iff simp del: upt_Suc)
      then have jin: "j \<in> ?A used (char_at g i)" by simp
      have "card (?A used (char_at g i)) > 0"
        using jin fin[of used "char_at g i"] by (simp only: card_gt_0_iff) blast
      then have pos: "cnt (char_at g i) > 0" using cnt by simp
      have nth_upd: "\<And>x. x < 5 \<Longrightarrow> used[j := True] ! x = (x = j \<or> used ! x)"
        using lu j(1) by (auto simp: nth_list_update)
      have upd: "\<And>k. ?A (used[j := True]) k = ?A used k - {j}"
        using nth_upd by blast
      have "\<And>k. card (?A (used[j := True]) k) = (cnt(char_at g i := cnt (char_at g i) - 1)) k"
      proof -
        fix k
        show "card (?A (used[j := True]) k) = (cnt(char_at g i := cnt (char_at g i) - 1)) k"
        proof (cases "k = char_at g i")
          case True
          then show ?thesis using jin cnt fin by (simp only: upd) simp
        next
          case False
          then have "j \<notin> ?A used k" using j by auto
          then have "?A used k - {j} = ?A used k" by blast
          then show ?thesis using False cnt by (simp only: upd) simp
        qed
      qed
      then show ?thesis using False Some pos s s' eq lr lu
        by (simp add: pattern_pass2_def yellows_def rel_cu_def)
    qed
  qed
qed

lemma yellows_fold_rel:
  "rel_cu a s s' \<Longrightarrow> n \<le> 5 \<Longrightarrow>
   rel_cu a (fold (pattern_pass2 g) [0..<n] s) (fold (yellows g a) [0..<n] s')"
proof (induction n)
  case 0
  then show ?case by simp
next
  case (Suc n)
  then have "rel_cu a (fold (pattern_pass2 g) [0..<n] s) (fold (yellows g a) [0..<n] s')"
    by simp
  then have "rel_cu a (pattern_pass2 g n (fold (pattern_pass2 g) [0..<n] s))
                      (yellows g a n (fold (yellows g a) [0..<n] s'))"
    using Suc.prems by (intro yellows_step_rel) simp_all
  then show ?case by (simp only: fold_upt_Suc)
qed

lemma pass1_rel_greens:
  "rel_cu a (fold (pattern_pass1 g a) [0..<5] (replicate 5 CHR ''0'', \<lambda>_. 0))
            (fold (greens g a) [0..<5] (replicate 5 CHR ''0'', replicate 5 False))"
proof -
  have "\<And>k. {j. j < 5 \<and> char_at a j \<noteq> char_at g j \<and> char_at a j = k}
     = {j. j < 5 \<and> \<not> map (\<lambda>i. i < 5 \<and> char_at a i = char_at g i) [0..<5] ! j \<and> char_at a j = k}"
    by (auto simp del: upt_Suc)
  then show ?thesis
    by (simp add: pass1_state greens_state rel_cu_def del: upt_Suc)
qed

lemma patternOf_eq_pattern: "patternOf g a = pattern g a"
  using yellows_fold_rel[OF pass1_rel_greens, of 5 a g g]
  by (simp add: patternOf_def pattern_def rel_cu_def del: upt_Suc)


lemma inv2_init: "inv2 g a 0 (fold (pattern_pass1 g a) [0..<5] (replicate 5 CHR ''0'', \<lambda>_. 0))"
  by (simp add: pass1_state inv2_def del: upt_Suc)

lemma inv2_step:
  assumes I: "inv2 g a n s" and n: "n < 5"
  shows "inv2 g a (Suc n) (pattern_pass2 g n s)"
proof -
  obtain res cnt where s: "s = (res, cnt)" by (cases s)
  from I s have lr: "length res = 5"
    and g2: "\<And>i. i < 5 \<Longrightarrow> (res ! i = CHR ''2'') = (char_at a i = char_at g i)"
    and rest: "\<And>i. i < 5 \<Longrightarrow> n \<le> i \<Longrightarrow> res ! i = (if char_at a i = char_at g i then CHR ''2'' else CHR ''0'')"
    and rng: "\<And>i. i < 5 \<Longrightarrow> res ! i = CHR ''0'' \<or> res ! i = CHR ''1'' \<or> res ! i = CHR ''2''"
    and cnt: "\<And>k. card {i. i < n \<and> char_at g i = k \<and> res ! i = CHR ''1''} + cnt k
          = card {j. j < 5 \<and> char_at a j \<noteq> char_at g j \<and> char_at a j = k}"
    by (auto simp: inv2_def)
  have rn: "res ! n = (if char_at a n = char_at g n then CHR ''2'' else CHR ''0'')"
    using rest[of n] n by simp
  show ?thesis
  proof (cases "res ! n = CHR ''2''")
    case True
    then have step: "pattern_pass2 g n s = (res, cnt)" using s by (simp add: pattern_pass2_def)
    have "\<And>k. {i. i < Suc n \<and> char_at g i = k \<and> res ! i = CHR ''1''}
        = {i. i < n \<and> char_at g i = k \<and> res ! i = CHR ''1''}"
      using True by (auto simp: less_Suc_eq)
    then have "\<forall>k. card {i. i < Suc n \<and> char_at g i = k \<and> res ! i = CHR ''1''} + cnt k
          = card {j. j < 5 \<and> char_at a j \<noteq> char_at g j \<and> char_at a j = k}"
      using cnt by simp
    moreover have "\<forall>i<5. Suc n \<le> i \<longrightarrow> res ! i = (if char_at a i = char_at g i then CHR ''2'' else CHR ''0'')"
      using rest by simp
    ultimately show ?thesis using lr g2 rng
      by (simp only: step inv2_def fst_conv snd_conv) blast
  next
    case False
    then have r0: "res ! n = CHR ''0''" using rn by (simp split: if_splits)
    show ?thesis
    proof (cases "cnt (char_at g n) > 0")
      case False
      then have step: "pattern_pass2 g n s = (res, cnt)" using s r0 by (simp add: pattern_pass2_def)
      have "\<And>k. {i. i < Suc n \<and> char_at g i = k \<and> res ! i = CHR ''1''}
          = {i. i < n \<and> char_at g i = k \<and> res ! i = CHR ''1''}"
        using r0 by (auto simp: less_Suc_eq)
      then have "\<forall>k. card {i. i < Suc n \<and> char_at g i = k \<and> res ! i = CHR ''1''} + cnt k
            = card {j. j < 5 \<and> char_at a j \<noteq> char_at g j \<and> char_at a j = k}"
        using cnt by simp
      moreover have "\<forall>i<5. Suc n \<le> i \<longrightarrow> res ! i = (if char_at a i = char_at g i then CHR ''2'' else CHR ''0'')"
        using rest by simp
      ultimately show ?thesis using lr g2 rng
        by (simp only: step inv2_def fst_conv snd_conv) blast
    next
      case True
      let ?res = "res[n := CHR ''1'']"
      let ?cnt = "cnt(char_at g n := cnt (char_at g n) - 1)"
      have step: "pattern_pass2 g n s = (?res, ?cnt)"
        using s r0 True by (simp add: pattern_pass2_def)
      have nth: "\<And>i. i < 5 \<Longrightarrow> ?res ! i = (if i = n then CHR ''1'' else res ! i)"
        using lr n by (auto simp: nth_list_update)
      have ne: "char_at a n \<noteq> char_at g n" using g2[of n] n r0 by auto
      have sets: "\<And>k. {i. i < n \<and> char_at g i = k \<and> ?res ! i = CHR ''1''}
          = {i. i < n \<and> char_at g i = k \<and> res ! i = CHR ''1''}"
        using nth n by auto
      have c: "\<And>k. card {i. i < Suc n \<and> char_at g i = k \<and> ?res ! i = CHR ''1''} + ?cnt k
          = card {j. j < 5 \<and> char_at a j \<noteq> char_at g j \<and> char_at a j = k}"
      proof -
        fix k
        have n1: "?res ! n = CHR ''1''" using nth[of n] n by simp
        show "card {i. i < Suc n \<and> char_at g i = k \<and> ?res ! i = CHR ''1''} + ?cnt k
          = card {j. j < 5 \<and> char_at a j \<noteq> char_at g j \<and> char_at a j = k}"
          using cnt[of k] True n1
          by (simp only: card_less_Suc_split[of n "\<lambda>i. char_at g i = k \<and> ?res ! i = CHR ''1''"] sets)
             auto
      qed
      have "length ?res = 5" using lr by simp
      moreover have "\<forall>i<5. (?res ! i = CHR ''2'') = (char_at a i = char_at g i)"
        using nth g2 ne by auto
      moreover have "\<forall>i<5. Suc n \<le> i \<longrightarrow> ?res ! i = (if char_at a i = char_at g i then CHR ''2'' else CHR ''0'')"
        using nth rest by auto
      moreover have "\<forall>i<5. ?res ! i = CHR ''0'' \<or> ?res ! i = CHR ''1'' \<or> ?res ! i = CHR ''2''"
        using nth rng by auto
      ultimately show ?thesis using c by (simp only: step inv2_def fst_conv snd_conv) blast
    qed
  qed
qed

lemma inv2_fold:
  "n \<le> 5 \<Longrightarrow> inv2 g a n (fold (pattern_pass2 g) [0..<n]
      (fold (pattern_pass1 g a) [0..<5] (replicate 5 CHR ''0'', \<lambda>_. 0)))"
proof (induction n)
  case 0
  show ?case using inv2_init by simp
next
  case (Suc n)
  then show ?case using inv2_step[of g a n] by (simp only: fold_upt_Suc) (simp_all)?
qed


lemma count_remaining_state:
  "fold (count_remaining a used) [0..<n] (\<lambda>_. 0) =
     (\<lambda>k. card {j. j < n \<and> \<not> used ! j \<and> char_at a j = k})"
proof (induction n)
  case 0
  show ?case by simp
next
  case (Suc n)
  have "fold (count_remaining a used) [0..<Suc n] (\<lambda>_. 0)
      = count_remaining a used n (\<lambda>k. card {j. j < n \<and> \<not> used ! j \<and> char_at a j = k})"
    by (simp only: fold_upt_Suc Suc)
  also have "\<dots> = (\<lambda>k. card {j. j < Suc n \<and> \<not> used ! j \<and> char_at a j = k})"
    by (auto simp: count_remaining_def card_less_Suc_split fun_eq_iff)
  finally show ?case .
qed

lemma yellows_by_count_fold:
  "n \<le> 5 \<Longrightarrow>
   fold (yellows_by_count g) [0..<n]
      (fold (pattern_pass1 g a) [0..<5] (replicate 5 CHR ''0'', \<lambda>_. 0))
   = fold (pattern_pass2 g) [0..<n]
      (fold (pattern_pass1 g a) [0..<5] (replicate 5 CHR ''0'', \<lambda>_. 0))"
proof (induction n)
  case 0
  show ?case by simp
next
  case (Suc n)
  let ?s = "fold (pattern_pass2 g) [0..<n]
      (fold (pattern_pass1 g a) [0..<5] (replicate 5 CHR ''0'', \<lambda>_. 0))"
  from Suc.prems have n: "n < 5" by simp
  then have "inv2 g a n ?s" using inv2_fold[of n g a] by simp
  then have "fst ?s ! n = CHR ''0'' \<or> fst ?s ! n = CHR ''2''"
    using n by (simp add: inv2_def)
  then have "yellows_by_count g n ?s = pattern_pass2 g n ?s"
    by (cases ?s) (auto simp: yellows_by_count_def pattern_pass2_def)
  then show ?case using Suc.IH n by (simp only: fold_upt_Suc)
qed

lemma patternFor_counts_eq_pattern: "patternFor_counts g a = pattern g a"
proof -
  have "fold (count_remaining a (map (\<lambda>i. i < 5 \<and> char_at a i = char_at g i) [0..<5])) [0..<5] (\<lambda>_. 0)
      = (\<lambda>k. card {j. j < 5 \<and> char_at a j \<noteq> char_at g j \<and> char_at a j = k})"
  proof -
    have "\<And>k. {j. j < 5 \<and> \<not> map (\<lambda>i. i < 5 \<and> char_at a i = char_at g i) [0..<5] ! j \<and> char_at a j = k}
       = {j. j < 5 \<and> char_at a j \<noteq> char_at g j \<and> char_at a j = k}"
      by (auto simp del: upt_Suc)
    then show ?thesis by (simp only: count_remaining_state)
  qed
  then have "patternFor_counts g a = fst (fold (yellows_by_count g) [0..<5]
      (fold (pattern_pass1 g a) [0..<5] (replicate 5 CHR ''0'', \<lambda>_. 0)))"
    by (simp add: patternFor_counts_def greens_state pass1_state del: upt_Suc)
  then show ?thesis by (simp only: yellows_by_count_fold[of 5] pattern_def le_refl)
qed

lemma pattern_length: "length (pattern g a) = 5"
  using inv2_fold[of 5 g a] by (simp add: inv2_def pattern_def del: upt_Suc)

lemma pattern_green_iff: "i < 5 \<Longrightarrow> (pattern g a ! i = CHR ''2'') = (char_at a i = char_at g i)"
  using inv2_fold[of 5 g a] by (simp add: inv2_def pattern_def del: upt_Suc)

lemma pattern_yellow_bound:
  "card {i. i < 5 \<and> char_at g i = k \<and> pattern g a ! i = CHR ''1''}
     \<le> card {j. j < 5 \<and> char_at a j \<noteq> char_at g j \<and> char_at a j = k}"
proof -
  have "inv2 g a 5 (fold (pattern_pass2 g) [0..<5]
      (fold (pattern_pass1 g a) [0..<5] (replicate 5 CHR ''0'', \<lambda>_. 0)))"
    using inv2_fold[of 5 g a] by simp
  then have "card {i. i < 5 \<and> char_at g i = k \<and> pattern g a ! i = CHR ''1''}
        + snd (fold (pattern_pass2 g) [0..<5]
      (fold (pattern_pass1 g a) [0..<5] (replicate 5 CHR ''0'', \<lambda>_. 0))) k
      = card {j. j < 5 \<and> char_at a j \<noteq> char_at g j \<and> char_at a j = k}"
    by (simp only: inv2_def pattern_def)
  then show ?thesis by linarith
qed

lemma list5_eq_iff:
  "length xs = 5 \<Longrightarrow> length ys = 5 \<Longrightarrow> (xs = ys) = (\<forall>i<5. xs ! i = ys ! i)"
  by (auto simp: list_eq_iff_nth_eq)

lemma pattern_all_correct_iff:
  assumes "length g = 5" "length a = 5"
  shows "(pattern g a = ''22222'') = (g = a)"
proof -
  have "(pattern g a = ''22222'') = (\<forall>i<5. pattern g a ! i = ''22222'' ! i)"
    using pattern_length[of g a] by (intro list5_eq_iff) simp_all
  also have "\<dots> = (\<forall>i<5. pattern g a ! i = CHR ''2'')"
  proof -
    have "\<And>i. i < 5 \<Longrightarrow> ''22222'' ! i = CHR ''2''"
    proof -
      fix i :: nat assume "i < 5"
      then have "i = 0 \<or> i = 1 \<or> i = 2 \<or> i = 3 \<or> i = 4" by arith
      then show "''22222'' ! i = CHR ''2''" by (auto simp: numeral_eq_Suc)
    qed
    then show ?thesis by simp
  qed
  also have "\<dots> = (\<forall>i<5. char_at a i = char_at g i)"
    using pattern_green_iff by simp
  also have "\<dots> = (\<forall>i<5. g ! i = a ! i)"
    using assms by (auto simp: char_at_def)
  also have "\<dots> = (g = a)"
    using assms by (simp add: list5_eq_iff)
  finally show ?thesis .
qed


lemma pass2_keeps:
  "\<forall>i\<in>set js. m \<le> i \<Longrightarrow>
   length (fst (fold (pattern_pass2 g) js s)) = length (fst s) \<and>
   (\<forall>i<m. fst (fold (pattern_pass2 g) js s) ! i = fst s ! i)"
proof (induction js arbitrary: s)
  case Nil
  show ?case by simp
next
  case (Cons j js)
  obtain res cnt where s: "s = (res, cnt)" by (cases s)
  have "length (fst (pattern_pass2 g j s)) = length (fst s) \<and>
        (\<forall>i<m. fst (pattern_pass2 g j s) ! i = fst s ! i)"
    using Cons.prems s by (auto simp: pattern_pass2_def)
  moreover have "length (fst (fold (pattern_pass2 g) js (pattern_pass2 g j s)))
        = length (fst (pattern_pass2 g j s)) \<and>
      (\<forall>i<m. fst (fold (pattern_pass2 g) js (pattern_pass2 g j s)) ! i
        = fst (pattern_pass2 g j s) ! i)"
    using Cons.IH[of "pattern_pass2 g j s"] Cons.prems by simp
  ultimately show ?case by simp
qed

lemma pass2_suffix_spec:
  assumes "length g = 5" "length a = 5"
  shows "n \<le> 5 \<Longrightarrow> length res = 5 \<Longrightarrow>
    (\<forall>i<5. n \<le> i \<longrightarrow> res ! i = (if a ! i = g ! i then CHR ''2'' else CHR ''0'')) \<Longrightarrow>
    drop n (fst (fold (pattern_pass2 g) [n..<5] (res, cnt)))
      = map mark_code (spec_pass2 (drop n (zip g a)) (\<lambda>c. cnt (Some c)))"
proof (induction "5 - n" arbitrary: n res cnt)
  case 0
  then have "n = 5" by simp
  then show ?case using 0 assms by simp
next
  case (Suc k)
  then have n: "n < 5" by simp
  let ?s' = "pattern_pass2 g n (res, cnt)"
  let ?X = "fst (fold (pattern_pass2 g) [Suc n..<5] ?s')"
  have fold_eq: "fold (pattern_pass2 g) [n..<5] (res, cnt) = fold (pattern_pass2 g) [Suc n..<5] ?s'"
    using n by (simp add: upt_conv_Cons del: upt_Suc)
  have keep: "length ?X = length (fst ?s') \<and> (\<forall>i<Suc n. ?X ! i = fst ?s' ! i)"
    by (intro pass2_keeps) simp
  have len': "length (fst ?s') = 5" using Suc.prems by (simp add: pattern_pass2_def)
  have rest': "\<forall>i<5. Suc n \<le> i \<longrightarrow> fst ?s' ! i = (if a ! i = g ! i then CHR ''2'' else CHR ''0'')"
    using Suc.prems by (auto simp: pattern_pass2_def)
  have IH: "drop (Suc n) ?X
      = map mark_code (spec_pass2 (drop (Suc n) (zip g a)) (\<lambda>c. snd ?s' (Some c)))"
    using Suc.hyps(1)[of "Suc n" "fst ?s'" "snd ?s'"] Suc.hyps(2) n len' rest' by simp
  have dropX: "drop n ?X = fst ?s' ! n # drop (Suc n) ?X"
    using keep len' n by (metis Cons_nth_drop_Suc lessI)
  have dropz: "drop n (zip g a) = (g ! n, a ! n) # drop (Suc n) (zip g a)"
    using assms n by (simp add: Cons_nth_drop_Suc[symmetric])
  have rn: "res ! n = (if a ! n = g ! n then CHR ''2'' else CHR ''0'')"
    using Suc.prems n by simp
  have atg: "char_at g n = Some (g ! n)" using assms n by (simp add: char_at_def)
  have upd: "(\<lambda>c. (cnt(Some (g ! n) := cnt (Some (g ! n)) - 1)) (Some c))
      = (\<lambda>c. cnt (Some c))(g ! n := cnt (Some (g ! n)) - 1)"
    by (auto simp: fun_eq_iff)
  have "fst ?s' ! n # map mark_code (spec_pass2 (drop (Suc n) (zip g a)) (\<lambda>c. snd ?s' (Some c)))
      = map mark_code (spec_pass2 ((g ! n, a ! n) # drop (Suc n) (zip g a)) (\<lambda>c. cnt (Some c)))"
    using rn atg upd Suc.prems(2) n by (auto simp: pattern_pass2_def)
  then show ?case by (simp only: fold_eq dropX dropz IH)
qed

lemma pattern_eq_spec_compute:
  assumes "length g = 5" "length a = 5"
  shows "pattern g a = spec_compute g a"
proof -
  let ?cnt = "\<lambda>k. card {j. j < 5 \<and> char_at a j \<noteq> char_at g j \<and> char_at a j = k}"
  let ?res = "map (\<lambda>i. if i < 5 \<and> char_at a i = char_at g i then CHR ''2'' else CHR ''0'') [0..<5]"
  have "\<forall>i<5. 0 \<le> i \<longrightarrow> ?res ! i = (if a ! i = g ! i then CHR ''2'' else CHR ''0'')"
    using assms by (auto simp: char_at_def simp del: upt_Suc)
  then have "drop 0 (fst (fold (pattern_pass2 g) [0..<5] (?res, ?cnt)))
      = map mark_code (spec_pass2 (drop 0 (zip g a)) (\<lambda>c. ?cnt (Some c)))"
    using assms by (intro pass2_suffix_spec) (simp_all del: upt_Suc)
  moreover have "(\<lambda>c. ?cnt (Some c)) = spec_unmatched g a"
  proof
    fix c
    have "{j. j < 5 \<and> char_at a j \<noteq> char_at g j \<and> char_at a j = Some c}
        = {i. i < length (zip g a) \<and> (\<lambda>(gc, sc). gc \<noteq> sc \<and> sc = c) (zip g a ! i)}"
      using assms by (auto simp: char_at_def)
    then show "?cnt (Some c) = spec_unmatched g a c"
      by (simp only: spec_unmatched_def length_filter_conv_card)
  qed
  ultimately show ?thesis
    by (simp add: pattern_def spec_compute_def pass1_state del: upt_Suc)
qed

section \<open>Properties of the partition\<close>

lemma bucket_push_keys: "fst ` set (bucket_push p x m) = insert p (fst ` set m)"
  by (induction p x m rule: bucket_push.induct) auto

lemma bucket_push_mem:
  "distinct (map fst m) \<Longrightarrow> b \<in> set (bucket_push p x m) \<Longrightarrow>
     (fst b \<noteq> p \<and> b \<in> set m) \<or>
     (fst b = p \<and> (\<exists>arr. (p, arr) \<in> set m \<and> snd b = arr @ [x])) \<or>
     (b = (p, [x]) \<and> p \<notin> fst ` set m)"
proof (induction m)
  case Nil
  then show ?case by simp
next
  case (Cons c m)
  obtain q arr where c: "c = (q, arr)" by (cases c)
  show ?case
  proof (cases "q = p")
    case True
    then have "b = (p, arr @ [x]) \<or> b \<in> set m" using Cons.prems c by auto
    then show ?thesis
    proof
      assume "b = (p, arr @ [x])"
      then show ?thesis using True c by auto
    next
      assume bm: "b \<in> set m"
      then have "fst b \<in> fst ` set m" by simp
      then have "fst b \<noteq> p" using Cons.prems(1) c True by auto
      then show ?thesis using bm by simp
    qed
  next
    case False
    then have "b = (q, arr) \<or> b \<in> set (bucket_push p x m)" using Cons.prems c by auto
    then show ?thesis
    proof
      assume "b = (q, arr)"
      then show ?thesis using False c by auto
    next
      assume "b \<in> set (bucket_push p x m)"
      then have "(fst b \<noteq> p \<and> b \<in> set m) \<or>
         (fst b = p \<and> (\<exists>arr. (p, arr) \<in> set m \<and> snd b = arr @ [x])) \<or>
         (b = (p, [x]) \<and> p \<notin> fst ` set m)" using Cons.prems(1) by (intro Cons.IH) simp_all
      then show ?thesis using False c by auto
    qed
  qed
qed

lemma bucket_push_distinct:
  "distinct (map fst m) \<Longrightarrow> distinct (map fst (bucket_push p x m))"
proof (induction m)
  case Nil
  show ?case by simp
next
  case (Cons c m)
  obtain q arr where c: "c = (q, arr)" by (cases c)
  have "fst ` set (bucket_push p x m) = insert p (fst ` set m)" by (rule bucket_push_keys)
  then show ?case using Cons c by auto
qed

lemma part_inv_push:
  assumes "part_inv key m xs"
  shows "part_inv key (bucket_push (key x) x m) (xs @ [x])"
proof -
  from assms have d: "distinct (map fst m)"
    and c: "\<And>b. b \<in> set m \<Longrightarrow> snd b \<noteq> [] \<and> snd b = filter (\<lambda>y. key y = fst b) xs"
    and k: "\<And>y. y \<in> set xs \<Longrightarrow> key y \<in> fst ` set m"
    by (auto simp: part_inv_def)
  have "distinct (map fst (bucket_push (key x) x m))" using d by (rule bucket_push_distinct)
  moreover have "\<forall>b\<in>set (bucket_push (key x) x m).
      snd b \<noteq> [] \<and> snd b = filter (\<lambda>y. key y = fst b) (xs @ [x])"
  proof
    fix b assume "b \<in> set (bucket_push (key x) x m)"
    then consider (old) "fst b \<noteq> key x" "b \<in> set m"
      | (upd) arr where "fst b = key x" "(key x, arr) \<in> set m" "snd b = arr @ [x]"
      | (new) "b = (key x, [x])" "key x \<notin> fst ` set m"
      using bucket_push_mem[OF d, of b "key x" x] by blast
    then show "snd b \<noteq> [] \<and> snd b = filter (\<lambda>y. key y = fst b) (xs @ [x])"
    proof cases
      case old
      then show ?thesis using c[of b] by auto
    next
      case upd
      then show ?thesis using c[of "(key x, arr)"] by auto
    next
      case new
      have "\<forall>y\<in>set xs. key y \<noteq> key x" using k new(2) by metis
      then have "filter (\<lambda>y. key y = key x) xs = []" by (simp add: filter_empty_conv)
      then show ?thesis using new by simp
    qed
  qed
  moreover have "\<forall>y\<in>set (xs @ [x]). key y \<in> fst ` set (bucket_push (key x) x m)"
    using k by (auto simp: bucket_push_keys)
  ultimately show ?thesis by (simp only: part_inv_def) 
qed

lemma part_inv_loop:
  "part_inv key m xs \<Longrightarrow> part_inv key (partition_loop key S m) (xs @ S)"
proof (induction S arbitrary: m xs)
  case Nil
  then show ?case by simp
next
  case (Cons x S)
  have "part_inv key (bucket_push (key x) x m) (xs @ [x])"
    using Cons.prems by (rule part_inv_push)
  then have "part_inv key (partition_loop key S (bucket_push (key x) x m)) ((xs @ [x]) @ S)"
    by (rule Cons.IH)
  then show ?case by simp
qed

lemma part_inv_partition: "part_inv key (partition_loop key S []) S"
proof -
  have "part_inv key [] []" by (simp add: part_inv_def)
  then have "part_inv key (partition_loop key S []) ([] @ S)" by (rule part_inv_loop)
  then show ?thesis by simp
qed

lemma bucket_push_total:
  "sum_list (map (\<lambda>b. length (snd b)) (bucket_push p x m))
     = Suc (sum_list (map (\<lambda>b. length (snd b)) m))"
  by (induction m) auto

lemma partition_loop_total:
  "sum_list (map (\<lambda>b. length (snd b)) (partition_loop key S m))
     = length S + sum_list (map (\<lambda>b. length (snd b)) m)"
  by (induction S arbitrary: m) (simp_all add: bucket_push_total)

lemma partition_bucket:
  assumes "b \<in> set (partition_loop key S [])"
  shows "snd b \<noteq> []" and "snd b = filter (\<lambda>y. key y = fst b) S"
  using part_inv_partition[of key S] assms by (auto simp: part_inv_def)

lemma filter_eq_singleton:
  "distinct S \<Longrightarrow> g \<in> set S \<Longrightarrow> filter (\<lambda>y. y = g) S = [g]"
  by (induction S) (auto simp: filter_empty_conv)

lemma partition_bucket_wf:
  assumes wf: "wellformed P S" and g: "g \<in> set S"
    and b: "b \<in> set (partition_loop (\<lambda>a. P g a) S [])"
  shows "wellformed P (snd b)"
    and "fst b = ''22222'' \<Longrightarrow> snd b = [g]"
    and "fst b \<noteq> ''22222'' \<Longrightarrow> length (snd b) < length S"
    and "2 \<le> length S \<Longrightarrow> length (snd b) < length S"
    and "snd b \<noteq> []"
proof -
  have f: "snd b = filter (\<lambda>y. P g y = fst b) S" using b by (rule partition_bucket(2))
  show ne: "snd b \<noteq> []" using b by (rule partition_bucket(1))
  from wf have d: "distinct S" and t: "\<And>h a. h \<in> set S \<Longrightarrow> a \<in> set S \<Longrightarrow> (P h a = ''22222'') = (a = h)"
    by (auto simp: wellformed_def table_ok_def)
  show "wellformed P (snd b)"
    using d t by (auto simp: wellformed_def table_ok_def f)
  show ac: "fst b = ''22222'' \<Longrightarrow> snd b = [g]"
  proof -
    assume "fst b = ''22222''"
    then have "filter (\<lambda>y. P g y = fst b) S = filter (\<lambda>y. y = g) S"
      using t g by (intro filter_cong) auto
    then show "snd b = [g]" using f d g by (simp add: filter_eq_singleton)
  qed
  show lt: "fst b \<noteq> ''22222'' \<Longrightarrow> length (snd b) < length S"
  proof -
    assume "fst b \<noteq> ''22222''"
    then have "\<not> (P g g = fst b)" using t[OF g g] by auto
    then have "length (filter (\<lambda>y. P g y = fst b) S) < length S"
      using g by (intro length_filter_less) simp_all
    then show "length (snd b) < length S" by (simp only: f)
  qed
  show "2 \<le> length S \<Longrightarrow> length (snd b) < length S"
    using ac lt by (cases "fst b = ''22222''") auto
qed

lemma buckets_wf:
  assumes "wellformed P S" "g \<in> set S" "arr \<in> set (buckets P S g)"
  shows "wellformed P arr" and "2 \<le> length S \<Longrightarrow> length arr < length S" and "arr \<noteq> []"
proof -
  from assms(3) obtain b where b: "b \<in> set (partition_loop (\<lambda>a. P g a) S [])" and a: "arr = snd b"
    by (auto simp: buckets_def)
  show "wellformed P arr" using partition_bucket_wf(1)[OF assms(1,2) b] a by simp
  show "2 \<le> length S \<Longrightarrow> length arr < length S"
    using partition_bucket_wf(4)[OF assms(1,2) b] a by simp
  show "arr \<noteq> []" using partition_bucket_wf(5)[OF assms(1,2) b] a by simp
qed

lemma buckets_total: "sum_list (map length (buckets P S g)) = length S"
  using partition_loop_total[of "\<lambda>a. P g a" S "[]"] by (simp add: buckets_def comp_def)

lemma length_filter_upt: "length (filter Q [0..<n]) = card {i. i < n \<and> Q i}"
proof -
  have "{i. i < length [0..<n] \<and> Q ([0..<n] ! i)} = {i. i < n \<and> Q i}" by auto
  then show ?thesis by (simp only: length_filter_conv_card)
qed

lemma partition_loop_is_partition: "is_partition key S (partition_loop key S [])"
proof -
  let ?m = "partition_loop key S []"
  have inv: "part_inv key ?m S" by (rule part_inv_partition)
  then have d: "distinct (map fst ?m)"
    and c: "\<And>b. b \<in> set ?m \<Longrightarrow> snd b \<noteq> [] \<and> snd b = filter (\<lambda>y. key y = fst b) S"
    and k: "\<And>y. y \<in> set S \<Longrightarrow> key y \<in> fst ` set ?m"
    by (auto simp: part_inv_def)
  have mem: "\<And>b x. b \<in> set ?m \<Longrightarrow> (x \<in> set (snd b)) = (x \<in> set S \<and> key x = fst b)"
    using c by auto
  have uniq: "\<And>b b'. b \<in> set ?m \<Longrightarrow> b' \<in> set ?m \<Longrightarrow> fst b = fst b' \<Longrightarrow> b = b'"
  proof -
    fix b b' assume "b \<in> set ?m" "b' \<in> set ?m" "fst b = fst b'"
    then have "snd b = snd b'" using c[of b] c[of b'] by simp
    then show "b = b'" using \<open>fst b = fst b'\<close> by (rule prod_eqI[rotated])
  qed
  have "distinct (map fst ?m)" by (rule d)
  moreover have "\<forall>b\<in>set ?m. snd b = filter (\<lambda>y. key y = fst b) S"
  proof
    fix b assume b: "b \<in> set ?m"
    show "snd b = filter (\<lambda>y. key y = fst b) S" using c[OF b] by (rule conjunct2)
  qed
  moreover have "\<forall>b\<in>set ?m. snd b \<noteq> [] \<and> set (snd b) \<subseteq> set S"
  proof
    fix b assume b: "b \<in> set ?m"
    have n: "snd b \<noteq> []" using c[OF b] by (rule conjunct1)
    have e: "snd b = filter (\<lambda>y. key y = fst b) S" using c[OF b] by (rule conjunct2)
    have "set (snd b) \<subseteq> set S" by (subst e) simp
    then show "snd b \<noteq> [] \<and> set (snd b) \<subseteq> set S" using n by (rule conjI[rotated])
  qed
  moreover have "\<forall>b\<in>set ?m. \<forall>b'\<in>set ?m. b \<noteq> b' \<longrightarrow> set (snd b) \<inter> set (snd b') = {}"
  proof (intro ballI impI)
    fix b b' assume bb: "b \<in> set ?m" "b' \<in> set ?m" "b \<noteq> b'"
    then have ne: "fst b \<noteq> fst b'" using uniq[of b b'] by auto
    show "set (snd b) \<inter> set (snd b') = {}"
    proof (rule ccontr)
      assume "set (snd b) \<inter> set (snd b') \<noteq> {}"
      then obtain x where "x \<in> set (snd b)" "x \<in> set (snd b')" by auto
      then have "key x = fst b" "key x = fst b'" using mem[OF bb(1)] mem[OF bb(2)] by simp_all
      then show False using ne by simp
    qed
  qed
  moreover have "\<forall>x\<in>set S. \<exists>!b. b \<in> set ?m \<and> x \<in> set (snd b)"
  proof
    fix x assume x: "x \<in> set S"
    then obtain b where b: "b \<in> set ?m" "fst b = key x" using k by fastforce
    then have "x \<in> set (snd b)" using mem x by simp
    then show "\<exists>!b. b \<in> set ?m \<and> x \<in> set (snd b)"
    proof (intro ex1I[of _ b] conjI)
      show "b \<in> set ?m" by (rule b(1))
    next
      fix b' assume "b' \<in> set ?m \<and> x \<in> set (snd b')"
      then have "b' \<in> set ?m" "fst b' = key x" using mem[of b' x] by simp_all
      then show "b' = b" using b uniq[of b' b] by simp
    qed
  qed
  moreover have "\<forall>x\<in>set S. \<forall>b\<in>set ?m. x \<in> set (snd b) \<longrightarrow> fst b = key x"
    using mem by simp
  moreover have "sum_list (map (\<lambda>b. length (snd b)) ?m) = length S"
    using partition_loop_total[of key S "[]"] by simp
  ultimately show ?thesis by (simp only: is_partition_def) 
qed

lemma patternFor_eq_pattern: "patternFor g a = pattern g a"
  using patternOf_eq_pattern[of g a] by (simp add: patternFor_def patternOf_def)

lemma all_correct_bucket:
  assumes d: "distinct S" and g: "g \<in> set S" and l: "\<forall>w\<in>set S. length w = 5"
  shows "map_of (partitionByPattern S g) ''22222'' = Some [g]"
proof -
  let ?key = "\<lambda>ans. pattern g ans"
  let ?m = "partition_loop ?key S []"
  have inv: "part_inv ?key ?m S" by (rule part_inv_partition)
  have gg: "pattern g g = ''22222''" using pattern_all_correct_iff[of g g] g l by simp
  from inv g have "?key g \<in> fst ` set ?m" by (simp add: part_inv_def)
  then obtain b where b: "b \<in> set ?m" "fst b = ''22222''" using gg by auto
  have "snd b = filter (\<lambda>y. pattern g y = fst b) S" using b(1) by (rule partition_bucket(2))
  also have "\<dots> = filter (\<lambda>y. y = g) S"
    using b(2) l g pattern_all_correct_iff[of g] by (intro filter_cong) auto
  also have "\<dots> = [g]" using d g by (rule filter_eq_singleton)
  finally have "snd b = [g]" .
  then have "b = (''22222'', [g])" using b(2) by (intro prod_eqI) simp_all
  then have "(''22222'', [g]) \<in> set ?m" using b(1) by simp
  moreover have "distinct (map fst ?m)" using inv by (simp add: part_inv_def)
  ultimately show ?thesis by (simp add: partitionByPattern_def)
qed

lemma buildTable_wellformed:
  assumes "distinct WORDS" "\<forall>w\<in>set WORDS. length w = 5" "distinct S" "\<forall>i\<in>set S. i < length WORDS"
  shows "wellformed (buildTable pattern WORDS) S"
    and "wellformed (buildTable patternOf WORDS) S"
    and "wellformed (buildTable patternFor WORDS) S"
proof -
  have "\<And>i j. i \<in> set S \<Longrightarrow> j \<in> set S \<Longrightarrow>
      (pattern (WORDS ! i) (WORDS ! j) = ''22222'') = (j = i)"
  proof -
    fix i j assume ij: "i \<in> set S" "j \<in> set S"
    then have "length (WORDS ! i) = 5" "length (WORDS ! j) = 5" using assms(2,4) by auto
    then have "(pattern (WORDS ! i) (WORDS ! j) = ''22222'') = (WORDS ! i = WORDS ! j)"
      by (rule pattern_all_correct_iff)
    also have "\<dots> = (j = i)" using assms(1,4) ij by (auto simp: nth_eq_iff_index_eq)
    finally show "(pattern (WORDS ! i) (WORDS ! j) = ''22222'') = (j = i)" .
  qed
  then show w: "wellformed (buildTable pattern WORDS) S" using assms(3)
    by (simp add: wellformed_def table_ok_def buildTable_def)
  then show "wellformed (buildTable patternOf WORDS) S"
    by (simp add: wellformed_def table_ok_def buildTable_def patternOf_eq_pattern)
  from w show "wellformed (buildTable patternFor WORDS) S"
    by (simp add: wellformed_def table_ok_def buildTable_def patternFor_eq_pattern)
qed

lemma pattern_allow_llama: "pattern ''allow'' ''llama'' = ''12100''"
  by code_simp

lemma pattern_allow_examples:
  "pattern ''allow'' ''allow'' = ''22222''"
  "pattern ''allow'' ''llama'' = ''12100''"
  "pattern ''allow'' ''alloy'' = ''22220''"
  "pattern ''allow'' ''wally'' = ''11201''"
  by code_simp+

lemma pattern_allow_no_common_letter:
  "pattern ''allow'' ''crimp'' = ''00000''"
  "pattern ''allow'' ''tents'' = ''00000''"
  by code_simp+

lemma partition_example:
  "partitionByPattern [''allow'', ''crimp'', ''llama'', ''tents''] ''allow''
     = [(''22222'', [''allow'']), (''00000'', [''crimp'', ''tents'']), (''12100'', [''llama''])]"
  by (simp add: partitionByPattern_def pattern_allow_examples pattern_allow_no_common_letter)

lemma partitionState_example:
  "partitionState (buildTable pattern [''allow'', ''crimp'', ''llama'', ''tents'']) [0, 1, 2, 3] 0
     = [(''22222'', [0]), (''00000'', [1, 3]), (''12100'', [2])]"
  by (simp add: partitionState_def buildTable_def pattern_allow_examples
      pattern_allow_no_common_letter)

lemma unmatched_l_in_llama:
  "length (filter (\<lambda>j. char_at ''llama'' j = Some CHR ''l'' \<and> char_at ''allow'' j \<noteq> char_at ''llama'' j) [0..<5]) = 1"
  by code_simp

section \<open>Properties of the exact solvers\<close>

declare E_all.simps [simp del]

declare E_skip.simps [simp del]

lemma E_all_small: "length S \<le> 1 \<Longrightarrow> E_all P S = of_nat (length S)"
  by (subst E_all.simps) simp

lemma E_all_ge: "of_nat (min 1 (length S)) \<le> E_all P S"
proof (induction P S rule: E_all.induct)
  case (1 P S)
  show ?case
  proof (cases "length S \<le> 1")
    case True
    then show ?thesis by (simp add: E_all_small min_def)
  next
    case False
    have nonneg: "\<And>g arr. g \<in> set S \<Longrightarrow> arr \<in> set (buckets P S g) \<Longrightarrow>
        0 \<le> of_nat (length arr) / of_nat (length S) *
                  (if length arr < length S then E_all P arr else (1::rat))"
    proof -
      fix g arr assume ga: "g \<in> set S" "arr \<in> set (buckets P S g)"
      have "length arr < length S \<Longrightarrow> (0::rat) \<le> E_all P arr"
      proof -
        assume lt: "length arr < length S"
        have "of_nat (min 1 (length arr)) \<le> E_all P arr"
          using "1.IH"[OF False ga lt] .
        moreover have "(0::rat) \<le> of_nat (min 1 (length arr))" by simp
        ultimately show "(0::rat) \<le> E_all P arr" by linarith
      qed
      then show "0 \<le> of_nat (length arr) / of_nat (length S) *
                  (if length arr < length S then E_all P arr else (1::rat))"
        by (auto intro!: mult_nonneg_nonneg divide_nonneg_nonneg)
    qed
    have "\<And>g. g \<in> set S \<Longrightarrow> (1::rat) \<le> 1 + sum_list (map (\<lambda>arr. of_nat (length arr) / of_nat (length S) *
                  (if length arr < length S then E_all P arr else 1)) (buckets P S g))"
    proof -
      fix g assume g: "g \<in> set S"
      have "(0::rat) \<le> sum_list (map (\<lambda>arr. of_nat (length arr) / of_nat (length S) *
                  (if length arr < length S then E_all P arr else 1)) (buckets P S g))"
        using nonneg[OF g] by (intro sum_list_nonneg) auto
      then show "(1::rat) \<le> 1 + sum_list (map (\<lambda>arr. of_nat (length arr) / of_nat (length S) *
                  (if length arr < length S then E_all P arr else 1)) (buckets P S g))"
        by linarith
    qed
    moreover have "S \<noteq> []" using False by auto
    ultimately have "(1::rat) \<le> E_all P S"
      using False by (subst E_all.simps) (simp add: Min_ge_iff)
    then show ?thesis by (simp add: min_def)
  qed
qed

lemma E_all_nonneg: "0 \<le> E_all P S"
proof -
  have "(0::rat) \<le> of_nat (min 1 (length S))" by simp
  then show ?thesis using E_all_ge[of S P] by linarith
qed

lemma E_all_unfold:
  assumes wf: "wellformed P S" and len: "2 \<le> length S"
  shows "E_all P S = Min (set (map (cost_all (E_all P) P S) S))"
proof -
  have "\<And>g. g \<in> set S \<Longrightarrow>
     1 + sum_list (map (\<lambda>arr. of_nat (length arr) / of_nat (length S) *
                  (if length arr < length S then E_all P arr else 1)) (buckets P S g))
     = cost_all (E_all P) P S g"
  proof -
    fix g assume g: "g \<in> set S"
    have "map (\<lambda>arr. of_nat (length arr) / of_nat (length S) *
                  (if length arr < length S then E_all P arr else 1)) (buckets P S g)
        = map (\<lambda>arr. of_nat (length arr) / of_nat (length S) * E_all P arr) (buckets P S g)"
      using buckets_wf(2)[OF wf g _ len] by (intro map_cong) auto
    then show "1 + sum_list (map (\<lambda>arr. of_nat (length arr) / of_nat (length S) *
                  (if length arr < length S then E_all P arr else 1)) (buckets P S g))
     = cost_all (E_all P) P S g" by (simp only: cost_all_def)
  qed
  then have "map (\<lambda>g. 1 + sum_list (map (\<lambda>arr. of_nat (length arr) / of_nat (length S) *
                  (if length arr < length S then E_all P arr else 1)) (buckets P S g))) S
     = map (cost_all (E_all P) P S) S"
    by (intro map_cong) auto
  then show ?thesis using len by (subst E_all.simps) simp
qed

lemma jge_iff_not_jlt: "jge a b = (\<not> jlt a b)"
  by (cases a; cases b) auto

lemma foldl_jmin_Num: "foldl jmin (Num x) cs = Num (Min (insert x (set cs)))"
proof (induction cs arbitrary: x)
  case Nil
  show ?case by simp
next
  case (Cons c cs)
  have "jmin (Num x) c = Num (min c x)" by (simp add: jmin_def min_def)
  moreover have "Min (insert (min c x) (set cs)) = Min (insert x (set (c # cs)))"
  proof (cases "set cs = {}")
    case True
    then show ?thesis by (simp add: min.commute)
  next
    case False
    have "Min (insert x (insert c (set cs))) = min x (Min (insert c (set cs)))"
      by (rule Min_insert) simp_all
    also have "Min (insert c (set cs)) = min c (Min (set cs))"
      using False by (intro Min_insert) simp_all
    finally have "Min (insert x (insert c (set cs))) = min (min c x) (Min (set cs))"
      by (simp add: min.assoc min.left_commute min.commute)
    moreover have "Min (insert (min c x) (set cs)) = min (min c x) (Min (set cs))"
      using False by (intro Min_insert) simp_all
    ultimately show ?thesis by simp
  qed
  ultimately show ?case using Cons.IH[of "min c x"] by simp
qed

lemma foldl_jmin_Infinity:
  assumes "cs \<noteq> []"
  shows "foldl jmin Infinity cs = Num (Min (set cs))"
proof -
  from assms obtain c cs' where cs: "cs = c # cs'" by (cases cs) auto
  have "jmin Infinity c = Num c" by (simp add: jmin_def)
  then show ?thesis using cs by (simp add: foldl_jmin_Num)
qed

lemma memo_set_subset: "set (memo_set m k v) \<subseteq> insert (k, v) (set m)"
  by (induction m k v rule: memo_set.induct) auto

lemma store_ok_memo_set: "store_ok memo_set"
  by (simp add: store_ok_def memo_set_subset)

lemma memo_set_drop_subset: "set (memo_set (drop n m) k v) \<subseteq> insert (k, v) (set m)"
proof -
  have "set (memo_set (drop n m) k v) \<subseteq> insert (k, v) (set (drop n m))"
    by (rule memo_set_subset)
  moreover have "set (drop n m) \<subseteq> set m" by (rule set_drop_subset)
  ultimately show ?thesis by blast
qed

lemma store_ok_memoStore: "store_ok (memoStore cap)"
  by (simp add: store_ok_def memoStore_def memo_set_subset memo_set_drop_subset)

lemma store_ok_none: "store_ok (\<lambda>memo key v. memo)"
  by (auto simp: store_ok_def)

lemma memo_inv_all_store:
  assumes "store_ok store" "memo_inv_all P m" "wellformed P k"
  shows "memo_inv_all P (store m k (Num (E_all P k)))"
proof -
  have "set (store m k (Num (E_all P k))) \<subseteq> insert (k, Num (E_all P k)) (set m)"
    using assms(1) by (simp add: store_ok_def)
  then show ?thesis using assms(2,3) by (fastforce simp: memo_inv_all_def)
qed

lemma memo_inv_all_lookup:
  "memo_inv_all P m \<Longrightarrow> map_of m k = Some v \<Longrightarrow> v = Num (E_all P k)"
  by (auto simp: memo_inv_all_def dest!: map_of_SomeD)

lemma solveTail_buckets_contract:
  assumes "rec_ok I R rec (set bs)" "I m" "\<forall>arr\<in>set bs. 0 \<le> R arr"
  shows "\<exists>x m'. solveTail_buckets rec n best bs (Num e) m = Some (Num x, m') \<and> I m' \<and>
     (jlt (Num (1 + (e + sum_list (map (\<lambda>arr. of_nat (length arr) / of_nat n * R arr) bs)))) best
        \<longrightarrow> x = e + sum_list (map (\<lambda>arr. of_nat (length arr) / of_nat n * R arr) bs)) \<and>
     (\<not> jlt (Num (1 + (e + sum_list (map (\<lambda>arr. of_nat (length arr) / of_nat n * R arr) bs)))) best
        \<longrightarrow> \<not> jlt (Num (1 + x)) best)"
  using assms
proof (induction bs arbitrary: e m)
  case Nil
  then show ?case by simp
next
  case (Cons arr bs)
  let ?c = "of_nat (length arr) / of_nat n * R arr :: rat"
  let ?rest = "sum_list (map (\<lambda>arr. of_nat (length arr) / of_nat n * R arr) bs)"
  from Cons.prems(1,2) obtain m1 where r: "rec m arr = Some (Num (R arr), m1)"
    and s1: "I m1" by (auto simp: rec_ok_def)
  have c0: "0 \<le> ?c" using Cons.prems(3) by (auto intro!: mult_nonneg_nonneg divide_nonneg_nonneg)
  have rest0: "0 \<le> ?rest" using Cons.prems(3)
    by (intro sum_list_nonneg) (auto intro!: mult_nonneg_nonneg divide_nonneg_nonneg)
  have rk: "rec_ok I R rec (set bs)" using Cons.prems(1) by (simp add: rec_ok_def)
  have nn: "\<forall>arr\<in>set bs. 0 \<le> R arr" using Cons.prems(3) by simp
  show ?case
  proof (cases "jge (Num (1 + (e + ?c))) best")
    case True
    then have res: "solveTail_buckets rec n best (arr # bs) (Num e) m = Some (Num (e + ?c), m1)"
      using r by (simp add: prob_def)
    have "\<not> jlt (Num (1 + (e + ?c))) best" using True by (simp add: jge_iff_not_jlt)
    moreover have "\<not> jlt (Num (1 + (e + (?c + ?rest)))) best"
      using True rest0 by (cases best) auto
    ultimately show ?thesis using res s1 by simp
  next
    case False
    then have res: "solveTail_buckets rec n best (arr # bs) (Num e) m
        = solveTail_buckets rec n best bs (Num (e + ?c)) m1"
      using r by (simp add: prob_def)
    from Cons.IH[OF rk s1 nn, of "e + ?c"] obtain x m' where
      "solveTail_buckets rec n best bs (Num (e + ?c)) m1 = Some (Num x, m')" "I m'"
      "jlt (Num (1 + (e + ?c + ?rest))) best \<longrightarrow> x = e + ?c + ?rest"
      "\<not> jlt (Num (1 + (e + ?c + ?rest))) best \<longrightarrow> \<not> jlt (Num (1 + x)) best"
      by blast
    then show ?thesis using res by (simp add: add.assoc)
  qed
qed

lemma solveTail_guesses_contract:
  assumes "\<forall>g\<in>set gs. rec_ok I R rec (set (buckets P S g))" "I m"
    "\<forall>g\<in>set gs. \<forall>arr\<in>set (buckets P S g). 0 \<le> R arr"
  shows "\<exists>m'. solveTail_guesses rec P S gs best m
           = Some (foldl jmin best (map (cost_all R P S) gs), m') \<and> I m'"
  using assms
proof (induction gs arbitrary: best m)
  case Nil
  then show ?case by simp
next
  case (Cons g gs)
  have rk: "rec_ok I R rec (set (buckets P S g))" using Cons.prems(1) by simp
  have nn: "\<forall>arr\<in>set (buckets P S g). 0 \<le> R arr" using Cons.prems(3) by simp
  from solveTail_buckets_contract[OF rk Cons.prems(2) nn, of "length S" best 0]
  obtain x m1 where
    b: "solveTail_buckets rec (length S) best (buckets P S g) (Num 0) m = Some (Num x, m1)"
    and s1: "I m1"
    and lt: "jlt (Num (cost_all R P S g)) best \<longrightarrow> Num (1 + x) = Num (cost_all R P S g)"
    and ge: "\<not> jlt (Num (cost_all R P S g)) best \<longrightarrow> \<not> jlt (Num (1 + x)) best"
    by (auto simp: cost_all_def)
  have upd: "(if jlt (jadd (Num 1) (Num x)) best then jadd (Num 1) (Num x) else best)
      = jmin best (cost_all R P S g)"
    using lt ge by (auto simp: jmin_def)
  from Cons.IH[of m1 "jmin best (cost_all R P S g)"] Cons.prems s1 obtain m' where
    "solveTail_guesses rec P S gs (jmin best (cost_all R P S g)) m1
       = Some (foldl jmin (jmin best (cost_all R P S g)) (map (cost_all R P S) gs), m')"
    "I m'" by auto
  then show ?case using b upd by (simp add: buckets_def del: jadd.simps)
qed

lemma rec_ok_from_IH:
  assumes IH: "\<And>arr m0. wellformed P arr \<Longrightarrow> length arr \<le> fuel \<Longrightarrow> 0 < fuel \<Longrightarrow> I m0 \<Longrightarrow>
      \<exists>m'. rec m0 arr = Some (Num (R arr), m') \<and> I m'"
    and wf: "wellformed P S" and len: "2 \<le> length S" and fuel: "length S \<le> Suc fuel"
    and g: "g \<in> set S"
  shows "rec_ok I R rec (set (buckets P S g))"
  unfolding rec_ok_def
proof (intro ballI allI impI)
  fix arr m0 assume a: "arr \<in> set (buckets P S g)" and ms: "I m0"
  have w: "wellformed P arr" using buckets_wf(1)[OF wf g a] .
  have "length arr < length S" using buckets_wf(2)[OF wf g a len] .
  then have l: "length arr \<le> fuel" using fuel by simp
  have "arr \<noteq> []" using buckets_wf(3)[OF wf g a] .
  then have "0 < fuel" using l by (cases arr) auto
  then show "\<exists>m'. rec m0 arr = Some (Num (R arr), m') \<and> I m'"
    using w l ms by (intro IH)
qed

lemma solveTail_with_correct:
  assumes st: "store_ok store"
  shows "wellformed P S \<Longrightarrow> length S \<le> fuel \<Longrightarrow> 0 < fuel \<Longrightarrow> memo_inv_all P m \<Longrightarrow>
    \<exists>m'. solveTail_with store fuel P m S = Some (Num (E_all P S), m') \<and> memo_inv_all P m'"
proof (induction fuel arbitrary: S m)
  case 0
  then show ?case by simp
next
  case (Suc fuel)
  show ?case
  proof (cases "length S \<le> 1")
    case True
    then have "length S = 0 \<or> length S = 1" by arith
    then show ?thesis using Suc.prems(4) by (auto simp: E_all_small)
  next
    case False
    then have len: "2 \<le> length S" by simp
    show ?thesis
    proof (cases "map_of m S")
      case (Some cached)
      then have "cached = Num (E_all P S)" using Suc.prems(4) by (intro memo_inv_all_lookup)
      then show ?thesis using Some len Suc.prems(4) by auto
    next
      case None
      have rk: "\<forall>g\<in>set S. rec_ok (memo_inv_all P) (E_all P) (solveTail_with store fuel P)
                   (set (buckets P S g))"
        using Suc.IH Suc.prems(1,2) len by (intro ballI rec_ok_from_IH) auto
      have nn: "\<forall>g\<in>set S. \<forall>arr\<in>set (buckets P S g). 0 \<le> E_all P arr"
        by (simp add: E_all_nonneg)
      from solveTail_guesses_contract[OF rk Suc.prems(4) nn, of Infinity] obtain m1 where
        gl: "solveTail_guesses (solveTail_with store fuel P) P S S Infinity m
            = Some (foldl jmin Infinity (map (cost_all (E_all P) P S) S), m1)"
        and s1: "memo_inv_all P m1" by blast
      have "S \<noteq> []" using len by auto
      then have "foldl jmin Infinity (map (cost_all (E_all P) P S) S) = Num (E_all P S)"
        using E_all_unfold[OF Suc.prems(1) len] by (simp add: foldl_jmin_Infinity)
      then have gl': "solveTail_guesses (solveTail_with store fuel P) P S S Infinity m
            = Some (Num (E_all P S), m1)" using gl by simp
      have "memo_inv_all P (store m1 S (Num (E_all P S)))"
        using st s1 Suc.prems(1) by (rule memo_inv_all_store)
      then show ?thesis using None len gl' by auto
    qed
  qed
qed

lemma solveState_main_buckets_contract:
  assumes "rec_ok I R rec (set bs)" "I m" "\<forall>arr\<in>set bs. 0 \<le> R arr"
  shows "\<exists>x m'. solveState_main_buckets rec n best bs (Num e) m = Some (x, m') \<and> I m' \<and>
     (jlt (Num (1 + (e + sum_list (map (\<lambda>arr. of_nat (length arr) / of_nat n * R arr) bs)))) best
        \<longrightarrow> x = Num (e + sum_list (map (\<lambda>arr. of_nat (length arr) / of_nat n * R arr) bs))) \<and>
     (\<not> jlt (Num (1 + (e + sum_list (map (\<lambda>arr. of_nat (length arr) / of_nat n * R arr) bs)))) best
        \<longrightarrow> \<not> jlt (jadd (Num 1) x) best)"
  using assms
proof (induction bs arbitrary: e m)
  case Nil
  then show ?case by simp
next
  case (Cons arr bs)
  let ?c = "of_nat (length arr) / of_nat n * R arr :: rat"
  let ?rest = "sum_list (map (\<lambda>arr. of_nat (length arr) / of_nat n * R arr) bs)"
  from Cons.prems(1,2) obtain m1 where r: "rec m arr = Some (Num (R arr), m1)"
    and s1: "I m1" by (auto simp: rec_ok_def)
  have rest0: "0 \<le> ?rest" using Cons.prems(3)
    by (intro sum_list_nonneg) (auto intro!: mult_nonneg_nonneg divide_nonneg_nonneg)
  have rk: "rec_ok I R rec (set bs)" using Cons.prems(1) by (simp add: rec_ok_def)
  have nn: "\<forall>arr\<in>set bs. 0 \<le> R arr" using Cons.prems(3) by simp
  show ?case
  proof (cases "jge (Num (e + ?c + 1)) best")
    case True
    then have res: "solveState_main_buckets rec n best (arr # bs) (Num e) m = Some (Infinity, m1)"
      using r by (simp add: prob_def)
    have "\<not> jlt (Num (1 + (e + (?c + ?rest)))) best"
      using True rest0 by (cases best) auto
    then show ?thesis using res s1 by simp
  next
    case False
    then have res: "solveState_main_buckets rec n best (arr # bs) (Num e) m
        = solveState_main_buckets rec n best bs (Num (e + ?c)) m1"
      using r by (simp add: prob_def)
    from Cons.IH[OF rk s1 nn, of "e + ?c"] obtain x m' where
      "solveState_main_buckets rec n best bs (Num (e + ?c)) m1 = Some (x, m')" "I m'"
      "jlt (Num (1 + (e + ?c + ?rest))) best \<longrightarrow> x = Num (e + ?c + ?rest)"
      "\<not> jlt (Num (1 + (e + ?c + ?rest))) best \<longrightarrow> \<not> jlt (jadd (Num 1) x) best"
      by blast
    then show ?thesis using res by (simp add: add.assoc)
  qed
qed

lemma solveState_main_guesses_contract:
  assumes "\<forall>g\<in>set gs. rec_ok I R rec (set (buckets P S g))" "I m"
    "\<forall>g\<in>set gs. \<forall>arr\<in>set (buckets P S g). 0 \<le> R arr"
  shows "\<exists>m'. solveState_main_guesses rec P S gs best m
           = Some (foldl jmin best (map (cost_all R P S) gs), m') \<and> I m'"
  using assms
proof (induction gs arbitrary: best m)
  case Nil
  then show ?case by simp
next
  case (Cons g gs)
  have rk: "rec_ok I R rec (set (buckets P S g))" using Cons.prems(1) by simp
  have nn: "\<forall>arr\<in>set (buckets P S g). 0 \<le> R arr" using Cons.prems(3) by simp
  from solveState_main_buckets_contract[OF rk Cons.prems(2) nn, of "length S" best 0]
  obtain x m1 where
    b: "solveState_main_buckets rec (length S) best (buckets P S g) (Num 0) m = Some (x, m1)"
    and s1: "I m1"
    and lt: "jlt (Num (cost_all R P S g)) best \<longrightarrow> jadd (Num 1) x = Num (cost_all R P S g)"
    and ge: "\<not> jlt (Num (cost_all R P S g)) best \<longrightarrow> \<not> jlt (jadd (Num 1) x) best"
    by (auto simp: cost_all_def)
  have upd: "(if jlt (jadd (Num 1) x) best then jadd (Num 1) x else best)
      = jmin best (cost_all R P S g)"
    using lt ge by (auto simp: jmin_def)
  from Cons.IH[of m1 "jmin best (cost_all R P S g)"] Cons.prems s1 obtain m' where
    "solveState_main_guesses rec P S gs (jmin best (cost_all R P S g)) m1
       = Some (foldl jmin (jmin best (cost_all R P S g)) (map (cost_all R P S) gs), m')"
    "I m'" by auto
  then show ?case using b upd by (simp add: buckets_def del: jadd.simps)
qed

lemma solveState_main_correct:
  "wellformed P S \<Longrightarrow> length S \<le> fuel \<Longrightarrow> 0 < fuel \<Longrightarrow> memo_inv_all P m \<Longrightarrow>
    \<exists>m'. solveState_main fuel P m S = Some (Num (E_all P S), m') \<and> memo_inv_all P m'"
proof (induction fuel arbitrary: S m)
  case 0
  then show ?case by simp
next
  case (Suc fuel)
  show ?case
  proof (cases "length S \<le> 1")
    case True
    then have "length S = 0 \<or> length S = 1" by arith
    then show ?thesis using Suc.prems(4) by (auto simp: E_all_small)
  next
    case False
    then have len: "2 \<le> length S" by simp
    show ?thesis
    proof (cases "map_of m S")
      case (Some cached)
      then have "cached = Num (E_all P S)" using Suc.prems(4) by (intro memo_inv_all_lookup)
      then show ?thesis using Some len Suc.prems(4) by auto
    next
      case None
      have rk: "\<forall>g\<in>set S. rec_ok (memo_inv_all P) (E_all P) (solveState_main fuel P)
                   (set (buckets P S g))"
        using Suc.IH Suc.prems(1,2) len by (intro ballI rec_ok_from_IH) auto
      have nn: "\<forall>g\<in>set S. \<forall>arr\<in>set (buckets P S g). 0 \<le> E_all P arr"
        by (simp add: E_all_nonneg)
      from solveState_main_guesses_contract[OF rk Suc.prems(4) nn, of Infinity] obtain m1 where
        gl: "solveState_main_guesses (solveState_main fuel P) P S S Infinity m
            = Some (foldl jmin Infinity (map (cost_all (E_all P) P S) S), m1)"
        and s1: "memo_inv_all P m1" by blast
      have "S \<noteq> []" using len by auto
      then have "foldl jmin Infinity (map (cost_all (E_all P) P S) S) = Num (E_all P S)"
        using E_all_unfold[OF Suc.prems(1) len] by (simp add: foldl_jmin_Infinity)
      then have gl': "solveState_main_guesses (solveState_main fuel P) P S S Infinity m
            = Some (Num (E_all P S), m1)" using gl by simp
      have "memo_inv_all P (memo_set m1 S (Num (E_all P S)))"
        using store_ok_memo_set s1 Suc.prems(1) by (rule memo_inv_all_store)
      then show ?thesis using None len gl' by auto
    qed
  qed
qed

lemma root_buckets_contract:
  assumes "rec_ok I R rec (set bs)" "I m"
  shows "\<exists>m'. root_buckets rec n bs (Num e) m
      = Some (Num (e + sum_list (map (\<lambda>arr. of_nat (length arr) / of_nat n * R arr) bs)), m')
      \<and> I m'"
  using assms
proof (induction bs arbitrary: e m)
  case Nil
  then show ?case by simp
next
  case (Cons arr bs)
  from Cons.prems obtain m1 where r: "rec m arr = Some (Num (R arr), m1)"
    and s1: "I m1" by (auto simp: rec_ok_def)
  have rk: "rec_ok I R rec (set bs)" using Cons.prems(1) by (simp add: rec_ok_def)
  from Cons.IH[OF rk s1, of "e + of_nat (length arr) / of_nat n * R arr"]
  show ?case using r by (simp add: prob_def add.assoc)
qed

lemma unpruned_all_buckets_contract:
  assumes "rec_okU R rec (set bs)"
  shows "unpruned_all_buckets rec n bs (Num e)
      = Some (Num (e + sum_list (map (\<lambda>arr. of_nat (length arr) / of_nat n * R arr) bs)))"
  using assms
proof (induction bs arbitrary: e)
  case Nil
  then show ?case by simp
next
  case (Cons arr bs)
  have r: "rec arr = Some (Num (R arr))" using Cons.prems by (simp add: rec_okU_def)
  have rk: "rec_okU R rec (set bs)" using Cons.prems by (simp add: rec_okU_def)
  from Cons.IH[OF rk, of "e + of_nat (length arr) / of_nat n * R arr"]
  show ?case using r by (simp add: prob_def add.assoc)
qed

lemma unpruned_all_guesses_contract:
  assumes "\<forall>g\<in>set gs. rec_okU R rec (set (buckets P S g))"
  shows "unpruned_all_guesses rec P S gs best = Some (foldl jmin best (map (cost_all R P S) gs))"
  using assms
proof (induction gs arbitrary: best)
  case Nil
  then show ?case by simp
next
  case (Cons g gs)
  have rk: "rec_okU R rec (set (buckets P S g))" using Cons.prems by simp
  have b: "unpruned_all_buckets rec (length S) (buckets P S g) (Num 0)
      = Some (Num (cost_all R P S g - 1))"
    using unpruned_all_buckets_contract[OF rk, of "length S" 0] by (simp add: cost_all_def)
  have upd: "(if jlt (jadd (Num 1) (Num (cost_all R P S g - 1))) best
              then jadd (Num 1) (Num (cost_all R P S g - 1)) else best)
      = jmin best (cost_all R P S g)"
    by (simp add: jmin_def)
  from Cons.IH[of "jmin best (cost_all R P S g)"] Cons.prems
  have "unpruned_all_guesses rec P S gs (jmin best (cost_all R P S g))
       = Some (foldl jmin (jmin best (cost_all R P S g)) (map (cost_all R P S) gs))" by simp
  then show ?case using b upd by (simp add: buckets_def del: jadd.simps)
qed

lemma unpruned_all_correct:
  "wellformed P S \<Longrightarrow> length S \<le> fuel \<Longrightarrow> 0 < fuel \<Longrightarrow>
    unpruned_all fuel P S = Some (Num (E_all P S))"
proof (induction fuel arbitrary: S)
  case 0
  then show ?case by simp
next
  case (Suc fuel)
  show ?case
  proof (cases "length S \<le> 1")
    case True
    then have "length S = 0 \<or> length S = 1" by arith
    then show ?thesis by (auto simp: E_all_small)
  next
    case False
    then have len: "2 \<le> length S" by simp
    have rk: "\<forall>g\<in>set S. rec_okU (E_all P) (unpruned_all fuel P) (set (buckets P S g))"
    proof (intro ballI)
      fix g assume g: "g \<in> set S"
      show "rec_okU (E_all P) (unpruned_all fuel P) (set (buckets P S g))"
        unfolding rec_okU_def
      proof (intro ballI)
        fix arr assume a: "arr \<in> set (buckets P S g)"
        have w: "wellformed P arr" using buckets_wf(1)[OF Suc.prems(1) g a] .
        have "length arr < length S" using buckets_wf(2)[OF Suc.prems(1) g a len] .
        then have l: "length arr \<le> fuel" using Suc.prems(2) by simp
        have "arr \<noteq> []" using buckets_wf(3)[OF Suc.prems(1) g a] .
        then have "0 < fuel" using l by (cases arr) auto
        then show "unpruned_all fuel P arr = Some (Num (E_all P arr))"
          using w l by (intro Suc.IH)
      qed
    qed
    have "S \<noteq> []" using len by auto
    then have "foldl jmin Infinity (map (cost_all (E_all P) P S) S) = Num (E_all P S)"
      using E_all_unfold[OF Suc.prems(1) len] by (simp add: foldl_jmin_Infinity)
    then show ?thesis using unpruned_all_guesses_contract[OF rk, of Infinity] len by auto
  qed
qed

lemma sum_list_prob:
  "sum_list (map (\<lambda>arr. of_nat (length arr) / (of_nat n :: rat)) bs)
     = of_nat (sum_list (map length bs)) / of_nat n"
  by (induction bs) (simp_all add: add_divide_distrib)

lemma sum_list_prob_one:
  assumes "S \<noteq> []"
  shows "sum_list (map (\<lambda>arr. of_nat (length arr) / (of_nat (length S) :: rat)) (buckets P S g)) = 1"
  using assms by (simp add: sum_list_prob buckets_total)

lemma cost_all_bounds:
  assumes wf: "wellformed P S" and len: "(2::nat) \<le> length S" and g: "g \<in> set S"
    and R: "\<forall>arr\<in>set (buckets P S g). 1 \<le> R arr \<and> R arr \<le> of_nat (length arr)"
  shows "2 \<le> cost_all R P S g" and "cost_all R P S g \<le> of_nat (length S)"
proof -
  let ?n = "of_nat (length S) :: rat"
  let ?p = "\<lambda>arr. of_nat (length arr) / ?n"
  have ne: "S \<noteq> []" using len by (cases S) simp_all
  have npos: "0 < ?n" using ne by simp
  have one: "sum_list (map ?p (buckets P S g)) = 1" using ne by (rule sum_list_prob_one)
  have lo: "sum_list (map ?p (buckets P S g)) \<le> sum_list (map (\<lambda>arr. ?p arr * R arr) (buckets P S g))"
  proof (rule sum_list_mono)
    fix arr assume a: "arr \<in> set (buckets P S g)"
    have "0 \<le> ?p arr" by simp
    moreover have "1 \<le> R arr" using R a by simp
    ultimately have "?p arr * 1 \<le> ?p arr * R arr" by (rule mult_left_mono[rotated])
    then show "?p arr \<le> ?p arr * R arr" by simp
  qed
  show "2 \<le> cost_all R P S g" using lo one by (simp add: cost_all_def)
  have hi: "sum_list (map (\<lambda>arr. ?p arr * R arr) (buckets P S g))
      \<le> sum_list (map (\<lambda>arr. ?p arr * (?n - 1)) (buckets P S g))"
  proof (rule sum_list_mono)
    fix arr assume a: "arr \<in> set (buckets P S g)"
    have "length arr < length S" using buckets_wf(2)[OF wf g a len] .
    then have "of_nat (length arr) \<le> ?n - 1"
      by (metis Suc_leI of_nat_Suc of_nat_le_iff add.commute le_diff_eq)
    moreover have "R arr \<le> of_nat (length arr)" using R a by simp
    ultimately have "R arr \<le> ?n - 1" by linarith
    moreover have "0 \<le> ?p arr" by simp
    ultimately show "?p arr * R arr \<le> ?p arr * (?n - 1)" by (rule mult_left_mono)
  qed
  have "sum_list (map (\<lambda>arr. ?p arr * (?n - 1)) (buckets P S g))
      = sum_list (map ?p (buckets P S g)) * (?n - 1)"
    by (simp only: sum_list_mult_const)
  then have "sum_list (map (\<lambda>arr. ?p arr * R arr) (buckets P S g)) \<le> ?n - 1"
    using hi one by simp
  then show "cost_all R P S g \<le> of_nat (length S)" by (simp add: cost_all_def)
qed

lemma E_all_bounds:
  "wellformed P S \<Longrightarrow> S \<noteq> [] \<Longrightarrow>
     1 \<le> E_all P S \<and> E_all P S \<le> of_nat (length S) \<and> ((2::nat) \<le> length S \<longrightarrow> 2 \<le> E_all P S)"
proof (induction S rule: length_induct)
  case (1 S)
  show ?case
  proof (cases "length S \<le> 1")
    case True
    then have "length S = 1" using "1.prems"(2) by (cases S) auto
    then show ?thesis by (simp add: E_all_small)
  next
    case False
    then have len: "2 \<le> length S" by simp
    have costs: "\<forall>g\<in>set S. 2 \<le> cost_all (E_all P) P S g \<and> cost_all (E_all P) P S g \<le> of_nat (length S)"
    proof
      fix g assume g: "g \<in> set S"
      have R: "\<forall>arr\<in>set (buckets P S g). 1 \<le> E_all P arr \<and> E_all P arr \<le> of_nat (length arr)"
      proof
        fix arr assume a: "arr \<in> set (buckets P S g)"
        have "length arr < length S" using buckets_wf(2)[OF "1.prems"(1) g a len] .
        moreover have "wellformed P arr" using buckets_wf(1)[OF "1.prems"(1) g a] .
        moreover have "arr \<noteq> []" using buckets_wf(3)[OF "1.prems"(1) g a] .
        ultimately show "1 \<le> E_all P arr \<and> E_all P arr \<le> of_nat (length arr)"
          using "1.IH" by blast
      qed
      show "2 \<le> cost_all (E_all P) P S g \<and> cost_all (E_all P) P S g \<le> of_nat (length S)"
        using cost_all_bounds[OF "1.prems"(1) len g R] by simp
    qed
    have E: "E_all P S = Min (set (map (cost_all (E_all P) P S) S))"
      using "1.prems"(1) len by (rule E_all_unfold)
    have "set (map (cost_all (E_all P) P S) S) \<noteq> {}" using "1.prems"(2) by simp
    then have "Min (set (map (cost_all (E_all P) P S) S)) \<in> set (map (cost_all (E_all P) P S) S)"
      by (intro Min_in) simp_all
    then obtain g where "g \<in> set S" "E_all P S = cost_all (E_all P) P S g"
      using E by auto
    then show ?thesis using costs by auto
  qed
qed

lemma memo_inv_all_Nil: "memo_inv_all P []"
  by (simp add: memo_inv_all_def)

lemma solveTail_nomemo_correct:
  assumes "wellformed P S" "length S < fuel"
  shows "solveTail_nomemo fuel P S = Some (Num (E_all P S))"
proof -
  have "\<exists>m'. solveTail_with (\<lambda>memo key v. memo) fuel P [] S = Some (Num (E_all P S), m')
      \<and> memo_inv_all P m'"
    using assms memo_inv_all_Nil store_ok_none by (intro solveTail_with_correct) simp_all
  then show ?thesis by (auto simp: solveTail_nomemo_def)
qed

lemma memo_holds_nomemo_iff: "memo_holds solveTail_nomemo P m = memo_inv_all P m"
proof -
  have "\<And>e. wellformed P (fst e) \<Longrightarrow>
      (solveTail_nomemo (Suc (length (fst e))) P (fst e) = Some (snd e))
        = (snd e = Num (E_all P (fst e)))"
  proof -
    fix e :: "nat list \<times> jsnum" assume "wellformed P (fst e)"
    then have "solveTail_nomemo (Suc (length (fst e))) P (fst e) = Some (Num (E_all P (fst e)))"
      by (intro solveTail_nomemo_correct) simp_all
    then show "(solveTail_nomemo (Suc (length (fst e))) P (fst e) = Some (snd e))
        = (snd e = Num (E_all P (fst e)))" by auto
  qed
  then show ?thesis unfolding memo_holds_def memo_inv_all_def by blast
qed

lemma memo_holds_unpruned_iff: "memo_holds unpruned_all P m = memo_inv_all P m"
proof -
  have "\<And>e. wellformed P (fst e) \<Longrightarrow>
      (unpruned_all (Suc (length (fst e))) P (fst e) = Some (snd e))
        = (snd e = Num (E_all P (fst e)))"
  proof -
    fix e :: "nat list \<times> jsnum" assume "wellformed P (fst e)"
    then have "unpruned_all (Suc (length (fst e))) P (fst e) = Some (Num (E_all P (fst e)))"
      by (intro unpruned_all_correct) simp_all
    then show "(unpruned_all (Suc (length (fst e))) P (fst e) = Some (snd e))
        = (snd e = Num (E_all P (fst e)))" by auto
  qed
  then show ?thesis unfolding memo_holds_def memo_inv_all_def by blast
qed

lemma two_buckets:
  assumes "a \<noteq> b" "table_ok P [a, b]"
  shows "partition_loop (\<lambda>x. P a x) [a, b] [] = [(''22222'', [a]), (P a b, [b])]"
    and "partition_loop (\<lambda>x. P b x) [a, b] [] = [(P b a, [a]), (''22222'', [b])]"
    and "P a b \<noteq> ''22222''" and "P b a \<noteq> ''22222''"
  using assms by (auto simp: table_ok_def)

lemma two_candidates_main:
  assumes "a \<noteq> b" "table_ok P [a, b]"
  shows "solveState_main (Suc (Suc fuel)) P [] [a, b] = Some (Num 2, [([a, b], Num 2)])"
  using two_buckets[OF assms] by (simp add: prob_def)

lemma two_candidates_tail:
  assumes "a \<noteq> b" "table_ok P [a, b]"
  shows "solveTail_with store (Suc (Suc fuel)) P [] [a, b] = Some (Num 2, store [] [a, b] (Num 2))"
  using two_buckets[OF assms] by (simp add: prob_def)

lemma two_candidates_top:
  assumes "a \<noteq> b" "table_ok P [a, b]"
  shows "solveState_top (Suc (Suc fuel)) P [] [a, b] = Some (Num (3/2), [([a, b], Num (3/2))])"
  using two_buckets[OF assms] by (simp add: prob_def)

lemma two_candidates_dp:
  assumes "a < b" "table_ok P [a, b]"
  shows "solveState_dp (Suc (Suc fuel)) P [] [a, b]
     = Some (\<lparr>resValue = Num (3/2), resBestGuess = int a\<rparr>,
             [([a, b], \<lparr>resValue = Num (3/2), resBestGuess = int a\<rparr>)])"
proof -
  have ne: "a \<noteq> b" using assms(1) by simp
  have "sort [a, b] = [a, b]" using assms(1) by simp
  then show ?thesis using two_buckets[OF ne assms(2)]
    by (simp add: prob_def partitionState_def stateKey_def)
qed

lemma empty_main: "solveState_main (Suc fuel) PAT memo [] = Some (Num 0, memo)"
  by simp

lemma empty_dp: "solveState_dp (Suc fuel) PM dp [] = Some (\<lparr>resValue = Num 0, resBestGuess = - 1\<rparr>, dp)"
  by simp

lemma empty_tail: "solveTail cap (Suc fuel) PAT memo [] = Some (Num 0, memo)"
  by (simp add: solveTail_def)

lemma words3_wellformed:
  "wellformed (buildTable patternFor words3) [0, 1, 2]"
  by (rule buildTable_wellformed) (simp_all add: words3_def)

lemma words2_table_ok:
  "table_ok (buildTable patternFor words2) [0, 1]"
  "table_ok (buildTable patternOf words2) [0, 1]"
proof -
  have "wellformed (buildTable patternFor words2) [0, 1]"
    by (rule buildTable_wellformed) (simp_all add: words2_def)
  then show "table_ok (buildTable patternFor words2) [0, 1]" by (simp add: wellformed_def)
  have "wellformed (buildTable patternOf words2) [0, 1]"
    by (rule buildTable_wellformed) (simp_all add: words2_def)
  then show "table_ok (buildTable patternOf words2) [0, 1]" by (simp add: wellformed_def)
qed

lemma E_skip_small: "length S \<le> 1 \<Longrightarrow> E_skip P S = of_nat (length S)"
  by (subst E_skip.simps) simp

lemma skip_term_nonneg:
  "0 \<le> v \<Longrightarrow> (0::rat) \<le> (if c then 0 else of_nat k / of_nat n * v)"
  by (auto intro!: mult_nonneg_nonneg divide_nonneg_nonneg)

lemma E_skip_ge: "of_nat (min 1 (length S)) \<le> E_skip P S"
proof (induction P S rule: E_skip.induct)
  case (1 P S)
  show ?case
  proof (cases "length S \<le> 1")
    case True
    then show ?thesis by (simp add: E_skip_small min_def)
  next
    case False
    have nonneg: "\<And>g b. g \<in> set S \<Longrightarrow> b \<in> set (partition_loop (\<lambda>a. P g a) S []) \<Longrightarrow>
        0 \<le> (if fst b = ''22222'' then 0 else of_nat (length (snd b)) / of_nat (length S) *
                  (if length (snd b) < length S then E_skip P (snd b) else (1::rat)))"
    proof -
      fix g b assume gb: "g \<in> set S" "b \<in> set (partition_loop (\<lambda>a. P g a) S [])"
      have "fst b \<noteq> ''22222'' \<Longrightarrow> length (snd b) < length S \<Longrightarrow> (0::rat) \<le> E_skip P (snd b)"
      proof -
        assume ne: "fst b \<noteq> ''22222''" and lt: "length (snd b) < length S"
        have "of_nat (min 1 (length (snd b))) \<le> E_skip P (snd b)"
          using "1.IH"[OF False gb ne lt] .
        moreover have "(0::rat) \<le> of_nat (min 1 (length (snd b)))" by simp
        ultimately show "(0::rat) \<le> E_skip P (snd b)" by linarith
      qed
      then show "0 \<le> (if fst b = ''22222'' then 0 else of_nat (length (snd b)) / of_nat (length S) *
                  (if length (snd b) < length S then E_skip P (snd b) else (1::rat)))"
        by (auto intro!: mult_nonneg_nonneg divide_nonneg_nonneg)
    qed
    have "\<And>g. g \<in> set S \<Longrightarrow> (1::rat) \<le> 1 + sum_list (map (\<lambda>b. if fst b = ''22222'' then 0
          else of_nat (length (snd b)) / of_nat (length S) *
                  (if length (snd b) < length S then E_skip P (snd b) else 1))
            (partition_loop (\<lambda>a. P g a) S []))"
    proof -
      fix g assume g: "g \<in> set S"
      have "(0::rat) \<le> sum_list (map (\<lambda>b. if fst b = ''22222'' then 0
          else of_nat (length (snd b)) / of_nat (length S) *
                  (if length (snd b) < length S then E_skip P (snd b) else 1))
            (partition_loop (\<lambda>a. P g a) S []))"
      proof (rule sum_list_nonneg)
        fix x assume "x \<in> set (map (\<lambda>b. if fst b = ''22222'' then 0
          else of_nat (length (snd b)) / of_nat (length S) *
                  (if length (snd b) < length S then E_skip P (snd b) else 1))
            (partition_loop (\<lambda>a. P g a) S []))"
        then obtain b where bm: "b \<in> set (partition_loop (\<lambda>a. P g a) S [])"
          and xb: "x = (if fst b = ''22222'' then 0
            else of_nat (length (snd b)) / of_nat (length S) *
                  (if length (snd b) < length S then E_skip P (snd b) else 1))"
          by auto
        show "0 \<le> x" using nonneg[OF g bm] by (simp only: xb)
      qed
      then show "(1::rat) \<le> 1 + sum_list (map (\<lambda>b. if fst b = ''22222'' then 0
          else of_nat (length (snd b)) / of_nat (length S) *
                  (if length (snd b) < length S then E_skip P (snd b) else 1))
            (partition_loop (\<lambda>a. P g a) S []))"
        by linarith
    qed
    moreover have "S \<noteq> []" using False by auto
    ultimately have "(1::rat) \<le> E_skip P S"
      using False by (subst E_skip.simps) (simp add: Min_ge_iff)
    then show ?thesis by (simp add: min_def)
  qed
qed

lemma E_skip_nonneg: "0 \<le> E_skip P S"
proof -
  have "(0::rat) \<le> of_nat (min 1 (length S))" by simp
  then show ?thesis using E_skip_ge[of S P] by linarith
qed

lemma E_skip_unfold:
  assumes wf: "wellformed P S" and len: "(2::nat) \<le> length S"
  shows "E_skip P S = Min (set (map (cost_skip (E_skip P) P S) S))"
proof -
  have "\<And>g. g \<in> set S \<Longrightarrow>
     1 + sum_list (map (\<lambda>b. if fst b = ''22222'' then 0
          else of_nat (length (snd b)) / of_nat (length S) *
                  (if length (snd b) < length S then E_skip P (snd b) else 1))
            (partition_loop (\<lambda>a. P g a) S []))
     = cost_skip (E_skip P) P S g"
  proof -
    fix g assume g: "g \<in> set S"
    have "map (\<lambda>b. if fst b = ''22222'' then 0
          else of_nat (length (snd b)) / of_nat (length S) *
                  (if length (snd b) < length S then E_skip P (snd b) else 1))
            (partition_loop (\<lambda>a. P g a) S [])
        = map (\<lambda>b. if fst b = ''22222'' then 0
          else of_nat (length (snd b)) / of_nat (length S) * E_skip P (snd b))
            (partition_loop (\<lambda>a. P g a) S [])"
      using partition_bucket_wf(4)[OF wf g _ len] by (intro map_cong) auto
    then show "1 + sum_list (map (\<lambda>b. if fst b = ''22222'' then 0
          else of_nat (length (snd b)) / of_nat (length S) *
                  (if length (snd b) < length S then E_skip P (snd b) else 1))
            (partition_loop (\<lambda>a. P g a) S []))
     = cost_skip (E_skip P) P S g" by (simp only: cost_skip_def)
  qed
  then have "map (\<lambda>g. 1 + sum_list (map (\<lambda>b. if fst b = ''22222'' then 0
          else of_nat (length (snd b)) / of_nat (length S) *
                  (if length (snd b) < length S then E_skip P (snd b) else 1))
            (partition_loop (\<lambda>a. P g a) S []))) S
     = map (cost_skip (E_skip P) P S) S"
    by (intro map_cong) auto
  then show ?thesis using len by (subst E_skip.simps) simp
qed

lemma memo_inv_skip_store:
  assumes "memo_inv_skip P m" "wellformed P k"
  shows "memo_inv_skip P (memo_set m k (Num (E_skip P k)))"
proof -
  have "set (memo_set m k (Num (E_skip P k))) \<subseteq> insert (k, Num (E_skip P k)) (set m)"
    by (rule memo_set_subset)
  then show ?thesis using assms by (fastforce simp: memo_inv_skip_def)
qed

lemma memo_inv_skip_lookup:
  "memo_inv_skip P m \<Longrightarrow> map_of m k = Some v \<Longrightarrow> v = Num (E_skip P k)"
  by (auto simp: memo_inv_skip_def dest!: map_of_SomeD)

lemma solveState_top_buckets_contract:
  assumes "rec_ok I R rec (snd ` set bs)" "I m" "\<forall>b\<in>set bs. 0 \<le> R (snd b)"
  shows "\<exists>x m'. solveState_top_buckets rec n best bs (Num e) m = Some (Num x, m') \<and> I m' \<and>
     (jlt (Num (1 + (e + sum_list (map (\<lambda>b. if fst b = ''22222'' then 0
            else of_nat (length (snd b)) / of_nat n * R (snd b)) bs)))) best
        \<longrightarrow> x = e + sum_list (map (\<lambda>b. if fst b = ''22222'' then 0
            else of_nat (length (snd b)) / of_nat n * R (snd b)) bs)) \<and>
     (\<not> jlt (Num (1 + (e + sum_list (map (\<lambda>b. if fst b = ''22222'' then 0
            else of_nat (length (snd b)) / of_nat n * R (snd b)) bs)))) best
        \<longrightarrow> \<not> jlt (Num (1 + x)) best)"
  using assms
proof (induction bs arbitrary: e m)
  case Nil
  then show ?case by simp
next
  case (Cons b bs)
  obtain pat arr where b: "b = (pat, arr)" by (cases b)
  let ?f = "\<lambda>b. if fst b = ''22222'' then 0
            else of_nat (length (snd b)) / of_nat n * R (snd b) :: rat"
  let ?rest = "sum_list (map ?f bs)"
  have rest0: "0 \<le> ?rest" using Cons.prems(3)
    by (intro sum_list_nonneg) (auto intro!: mult_nonneg_nonneg divide_nonneg_nonneg)
  have rk: "rec_ok I R rec (snd ` set bs)" using Cons.prems(1) by (simp add: rec_ok_def)
  have nn: "\<forall>b\<in>set bs. 0 \<le> R (snd b)" using Cons.prems(3) by simp
  show ?case
  proof (cases "pat = ''22222''")
    case True
    from Cons.IH[OF rk Cons.prems(2) nn, of e] show ?thesis using True b by simp
  next
    case False
    let ?c = "of_nat (length arr) / of_nat n * R arr :: rat"
    from Cons.prems(1,2) b obtain m1 where r: "rec m arr = Some (Num (R arr), m1)"
      and s1: "I m1" by (auto simp: rec_ok_def)
    have fb: "?f b = ?c" using False b by simp
    show ?thesis
    proof (cases "jge (Num (1 + (e + ?c))) best")
      case True
      then have res: "solveState_top_buckets rec n best (b # bs) (Num e) m = Some (Num (e + ?c), m1)"
        using r False b by (simp add: prob_def)
      have "\<not> jlt (Num (1 + (e + ?c))) best" using True by (simp add: jge_iff_not_jlt)
      moreover have "\<not> jlt (Num (1 + (e + (?c + ?rest)))) best"
        using True rest0 by (cases best) auto
      ultimately show ?thesis using res s1 fb by simp
    next
      case nge: False
      then have res: "solveState_top_buckets rec n best (b # bs) (Num e) m
          = solveState_top_buckets rec n best bs (Num (e + ?c)) m1"
        using r False b by (simp add: prob_def)
      from Cons.IH[OF rk s1 nn, of "e + ?c"] obtain x m' where
        "solveState_top_buckets rec n best bs (Num (e + ?c)) m1 = Some (Num x, m')" "I m'"
        "jlt (Num (1 + (e + ?c + ?rest))) best \<longrightarrow> x = e + ?c + ?rest"
        "\<not> jlt (Num (1 + (e + ?c + ?rest))) best \<longrightarrow> \<not> jlt (Num (1 + x)) best"
        by blast
      then show ?thesis using res fb by (simp add: add.assoc)
    qed
  qed
qed

lemma solveState_top_guesses_contract:
  assumes "\<forall>g\<in>set gs. rec_ok I R rec (set (buckets P S g))" "I m"
    "\<forall>g\<in>set gs. \<forall>arr\<in>set (buckets P S g). 0 \<le> R arr"
  shows "\<exists>m'. solveState_top_guesses rec P S gs best m
           = Some (foldl jmin best (map (cost_skip R P S) gs), m') \<and> I m'"
  using assms
proof (induction gs arbitrary: best m)
  case Nil
  then show ?case by simp
next
  case (Cons g gs)
  let ?bs = "partition_loop (\<lambda>a. P g a) S []"
  have rk: "rec_ok I R rec (snd ` set ?bs)" using Cons.prems(1) by (simp add: buckets_def)
  have nn: "\<forall>b\<in>set ?bs. 0 \<le> R (snd b)" using Cons.prems(3) by (simp add: buckets_def)
  from solveState_top_buckets_contract[OF rk Cons.prems(2) nn, of "length S" best 0]
  obtain x m1 where
    b: "solveState_top_buckets rec (length S) best ?bs (Num 0) m = Some (Num x, m1)"
    and s1: "I m1"
    and lt: "jlt (Num (cost_skip R P S g)) best \<longrightarrow> Num (1 + x) = Num (cost_skip R P S g)"
    and ge: "\<not> jlt (Num (cost_skip R P S g)) best \<longrightarrow> \<not> jlt (Num (1 + x)) best"
    by (auto simp: cost_skip_def)
  have upd: "(if jlt (jadd (Num 1) (Num x)) best then jadd (Num 1) (Num x) else best)
      = jmin best (cost_skip R P S g)"
    using lt ge by (auto simp: jmin_def)
  from Cons.IH[of m1 "jmin best (cost_skip R P S g)"] Cons.prems s1 obtain m' where
    "solveState_top_guesses rec P S gs (jmin best (cost_skip R P S g)) m1
       = Some (foldl jmin (jmin best (cost_skip R P S g)) (map (cost_skip R P S) gs), m')"
    "I m'" by auto
  then show ?case using b upd by (simp del: jadd.simps)
qed

lemma solveState_top_correct:
  "wellformed P S \<Longrightarrow> length S \<le> fuel \<Longrightarrow> 0 < fuel \<Longrightarrow> memo_inv_skip P m \<Longrightarrow>
    \<exists>m'. solveState_top fuel P m S = Some (Num (E_skip P S), m') \<and> memo_inv_skip P m'"
proof (induction fuel arbitrary: S m)
  case 0
  then show ?case by simp
next
  case (Suc fuel)
  show ?case
  proof (cases "length S \<le> 1")
    case True
    then have "length S = 0 \<or> length S = 1" by arith
    then show ?thesis using Suc.prems(4) by (auto simp: E_skip_small)
  next
    case False
    then have len: "2 \<le> length S" by simp
    show ?thesis
    proof (cases "map_of m S")
      case (Some cached)
      then have "cached = Num (E_skip P S)" using Suc.prems(4) by (intro memo_inv_skip_lookup)
      then show ?thesis using Some len Suc.prems(4) by auto
    next
      case None
      have rk: "\<forall>g\<in>set S. rec_ok (memo_inv_skip P) (E_skip P) (solveState_top fuel P)
                   (set (buckets P S g))"
        using Suc.IH Suc.prems(1,2) len by (intro ballI rec_ok_from_IH) auto
      have nn: "\<forall>g\<in>set S. \<forall>arr\<in>set (buckets P S g). 0 \<le> E_skip P arr"
        by (simp add: E_skip_nonneg)
      from solveState_top_guesses_contract[OF rk Suc.prems(4) nn, of Infinity] obtain m1 where
        gl: "solveState_top_guesses (solveState_top fuel P) P S S Infinity m
            = Some (foldl jmin Infinity (map (cost_skip (E_skip P) P S) S), m1)"
        and s1: "memo_inv_skip P m1" by blast
      have "S \<noteq> []" using len by auto
      then have "foldl jmin Infinity (map (cost_skip (E_skip P) P S) S) = Num (E_skip P S)"
        using E_skip_unfold[OF Suc.prems(1) len] by (simp add: foldl_jmin_Infinity)
      then have gl': "solveState_top_guesses (solveState_top fuel P) P S S Infinity m
            = Some (Num (E_skip P S), m1)" using gl by simp
      have "memo_inv_skip P (memo_set m1 S (Num (E_skip P S)))"
        using s1 Suc.prems(1) by (rule memo_inv_skip_store)
      then show ?thesis using None len gl' by auto
    qed
  qed
qed

lemma expectedWithRoot_buckets_contract:
  assumes "rec_ok I R rec (snd ` {b \<in> set bs. fst b \<noteq> ''22222''})" "I m"
  shows "\<exists>m'. expectedWithRoot_buckets rec n bs (Num e) m
      = Some (Num (e + sum_list (map (\<lambda>b. if fst b = ''22222'' then 0
            else of_nat (length (snd b)) / of_nat n * R (snd b)) bs)), m') \<and> I m'"
  using assms
proof (induction bs arbitrary: e m)
  case Nil
  then show ?case by simp
next
  case (Cons b bs)
  obtain pat arr where b: "b = (pat, arr)" by (cases b)
  have rk: "rec_ok I R rec (snd ` {b \<in> set bs. fst b \<noteq> ''22222''})"
    using Cons.prems(1) by (auto simp: rec_ok_def)
  show ?case
  proof (cases "pat = ''22222''")
    case True
    from Cons.IH[OF rk Cons.prems(2), of e] show ?thesis using True b by simp
  next
    case False
    have "(pat, arr) \<in> {c \<in> set (b # bs). fst c \<noteq> ''22222''}"
      using b False by simp
    then have "snd (pat, arr) \<in> snd ` {c \<in> set (b # bs). fst c \<noteq> ''22222''}"
      by (rule imageI)
    then have "arr \<in> snd ` {c \<in> set (b # bs). fst c \<noteq> ''22222''}" by simp
    then have "\<exists>m'. rec m arr = Some (Num (R arr), m') \<and> I m'"
      using Cons.prems unfolding rec_ok_def by blast
    then obtain m1 where r: "rec m arr = Some (Num (R arr), m1)" and s1: "I m1" by blast
    from Cons.IH[OF rk s1, of "e + of_nat (length arr) / of_nat n * R arr"]
    show ?thesis using r False b by (simp add: prob_def add.assoc)
  qed
qed

lemma sum_list_prob_pairs:
  assumes "S \<noteq> []"
  shows "sum_list (map (\<lambda>b. of_nat (length (snd b)) / (of_nat (length S) :: rat))
            (partition_loop (\<lambda>a. (P :: table) g a) S [])) = 1"
  using sum_list_prob_one[OF assms, of P g] by (simp add: buckets_def comp_def)

lemma cost_dp_eq_cost_skip:
  assumes "S \<noteq> []"
  shows "cost_dp R P S g = cost_skip R P S g"
proof -
  let ?bs = "partition_loop (\<lambda>a. P g a) S []"
  let ?p = "\<lambda>b. of_nat (length (snd b)) / (of_nat (length S) :: rat)"
  let ?s = "\<lambda>b. if fst b = ''22222'' then 0 else ?p b * R (snd b)"
  have "map (\<lambda>b. if fst b = ''22222'' then ?p b * 1 else ?p b * (1 + R (snd b))) ?bs
      = map (\<lambda>b. ?p b + ?s b) ?bs"
    by (intro map_cong) (auto simp: distrib_left)
  then have "cost_dp R P S g = sum_list (map (\<lambda>b. ?p b + ?s b) ?bs)"
    by (simp only: cost_dp_def partitionState_def)
  also have "\<dots> = sum_list (map ?p ?bs) + sum_list (map ?s ?bs)"
    by (rule sum_list_addf)
  also have "\<dots> = 1 + sum_list (map ?s ?bs)"
    using sum_list_prob_pairs[OF assms, of P g] by simp
  finally show ?thesis by (simp only: cost_skip_def)
qed

lemma memo_inv_dp_store:
  assumes "memo_inv_dp P m" "wellformed P k" "sorted k" "resValue r = Num (E_skip P k)"
  shows "memo_inv_dp P (memo_set m k r)"
proof -
  have "set (memo_set m k r) \<subseteq> insert (k, r) (set m)" by (rule memo_set_subset)
  then show ?thesis using assms by (fastforce simp: memo_inv_dp_def)
qed

lemma memo_inv_dp_lookup:
  "memo_inv_dp P m \<Longrightarrow> map_of m k = Some r \<Longrightarrow> resValue r = Num (E_skip P k)"
  by (auto simp: memo_inv_dp_def dest!: map_of_SomeD)

lemma solveState_dp_buckets_contract:
  assumes "rec_ok_dp I R rec (snd ` set bs)" "I m" "\<forall>b\<in>set bs. 0 \<le> R (snd b)"
  shows "\<exists>x m'. solveState_dp_buckets rec n best bs (Num e) m = Some (Num x, m') \<and> I m' \<and>
     (jlt (Num (e + sum_list (map (\<lambda>b. if fst b = ''22222''
            then of_nat (length (snd b)) / of_nat n * 1
            else of_nat (length (snd b)) / of_nat n * (1 + R (snd b))) bs))) best
        \<longrightarrow> x = e + sum_list (map (\<lambda>b. if fst b = ''22222''
            then of_nat (length (snd b)) / of_nat n * 1
            else of_nat (length (snd b)) / of_nat n * (1 + R (snd b))) bs)) \<and>
     (\<not> jlt (Num (e + sum_list (map (\<lambda>b. if fst b = ''22222''
            then of_nat (length (snd b)) / of_nat n * 1
            else of_nat (length (snd b)) / of_nat n * (1 + R (snd b))) bs))) best
        \<longrightarrow> \<not> jlt (Num x) best)"
  using assms
proof (induction bs arbitrary: e m)
  case Nil
  then show ?case by simp
next
  case (Cons b bs)
  obtain pat arr where b: "b = (pat, arr)" by (cases b)
  let ?f = "\<lambda>b. if fst b = ''22222''
            then of_nat (length (snd b)) / of_nat n * 1
            else of_nat (length (snd b)) / of_nat n * (1 + R (snd b)) :: rat"
  let ?rest = "sum_list (map ?f bs)"
  have f0: "\<And>c. c \<in> set (b # bs) \<Longrightarrow> 0 \<le> ?f c"
  proof -
    fix c assume "c \<in> set (b # bs)"
    then have "0 \<le> 1 + R (snd c)" using Cons.prems(3) by force
    then show "0 \<le> ?f c" by (auto intro!: mult_nonneg_nonneg divide_nonneg_nonneg)
  qed
  have rest0: "0 \<le> ?rest"
  proof (rule sum_list_nonneg)
    fix x assume "x \<in> set (map ?f bs)"
    then obtain c where "c \<in> set bs" "x = ?f c" by auto
    then show "0 \<le> x" using f0[of c] by simp
  qed
  have rk: "rec_ok_dp I R rec (snd ` set bs)" using Cons.prems(1) by (simp add: rec_ok_dp_def)
  have nn: "\<forall>b\<in>set bs. 0 \<le> R (snd b)" using Cons.prems(3) by simp
  have step: "\<exists>m1. I m1 \<and>
      (if pat = ''22222''
            then Some (jadd (Num e) (jmul (prob (length arr) n) (Num 1)), m)
            else (case rec m arr of
                    None \<Rightarrow> None
                  | Some (sub, dp') \<Rightarrow>
                      Some (jadd (Num e)
                              (jmul (prob (length arr) n) (jadd (Num 1) (resValue sub))), dp')))
       = Some (Num (e + ?f b), m1)"
  proof (cases "pat = ''22222''")
    case True
    then show ?thesis using b Cons.prems(2) by (simp add: prob_def)
  next
    case False
    from Cons.prems(1,2) b obtain r m1 where r: "rec m arr = Some (r, m1)"
      "resValue r = Num (R arr)" and s1: "I m1" by (auto simp: rec_ok_dp_def)
    then show ?thesis using False b by (simp add: prob_def)
  qed
  then obtain m1 where s1: "I m1" and st:
      "(if pat = ''22222''
            then Some (jadd (Num e) (jmul (prob (length arr) n) (Num 1)), m)
            else (case rec m arr of
                    None \<Rightarrow> None
                  | Some (sub, dp') \<Rightarrow>
                      Some (jadd (Num e)
                              (jmul (prob (length arr) n) (jadd (Num 1) (resValue sub))), dp')))
       = Some (Num (e + ?f b), m1)" by blast
  show ?case
  proof (cases "jge (Num (e + ?f b)) best")
    case True
    have res: "solveState_dp_buckets rec n best (b # bs) (Num e) m = Some (Num (e + ?f b), m1)"
      using True by (simp only: b solveState_dp_buckets.simps st) simp
    have "\<not> jlt (Num (e + ?f b)) best" using True by (simp add: jge_iff_not_jlt)
    moreover have "\<not> jlt (Num (e + (?f b + ?rest))) best"
      using True rest0 by (cases best) auto
    ultimately show ?thesis using res s1 by simp
  next
    case False
    have res: "solveState_dp_buckets rec n best (b # bs) (Num e) m
        = solveState_dp_buckets rec n best bs (Num (e + ?f b)) m1"
      using False by (simp only: b solveState_dp_buckets.simps st) simp
    from Cons.IH[OF rk s1 nn, of "e + ?f b"] obtain x m' where
      "solveState_dp_buckets rec n best bs (Num (e + ?f b)) m1 = Some (Num x, m')" "I m'"
      "jlt (Num (e + ?f b + ?rest)) best \<longrightarrow> x = e + ?f b + ?rest"
      "\<not> jlt (Num (e + ?f b + ?rest)) best \<longrightarrow> \<not> jlt (Num x) best"
      by blast
    then show ?thesis using res by (simp add: add.assoc)
  qed
qed

lemma solveState_dp_guesses_contract:
  assumes "\<forall>g\<in>set gs. rec_ok_dp I R rec (set (buckets P S g))" "I m"
    "\<forall>g\<in>set gs. \<forall>arr\<in>set (buckets P S g). 0 \<le> R arr"
  shows "\<exists>r m'. solveState_dp_guesses rec P S gs best m = Some (r, m') \<and>
           resValue r = foldl jmin (resValue best) (map (cost_dp R P S) gs) \<and> I m'"
  using assms
proof (induction gs arbitrary: best m)
  case Nil
  then show ?case by simp
next
  case (Cons g gs)
  let ?bs = "partitionState P S g"
  have rk: "rec_ok_dp I R rec (snd ` set ?bs)"
    using Cons.prems(1) by (simp add: buckets_def partitionState_def)
  have nn: "\<forall>b\<in>set ?bs. 0 \<le> R (snd b)"
    using Cons.prems(3) by (simp add: buckets_def partitionState_def)
  from solveState_dp_buckets_contract[OF rk Cons.prems(2) nn, of "length S" "resValue best" 0]
  obtain x m1 where
    b: "solveState_dp_buckets rec (length S) (resValue best) ?bs (Num 0) m = Some (Num x, m1)"
    and s1: "I m1"
    and lt: "jlt (Num (cost_dp R P S g)) (resValue best) \<longrightarrow> x = cost_dp R P S g"
    and ge: "\<not> jlt (Num (cost_dp R P S g)) (resValue best) \<longrightarrow> \<not> jlt (Num x) (resValue best)"
    by (auto simp: cost_dp_def)
  let ?best' = "if jlt (Num x) (resValue best)
             then \<lparr>resValue = Num x, resBestGuess = int g\<rparr> else best"
  have upd: "resValue ?best' = jmin (resValue best) (cost_dp R P S g)"
    using lt ge by (auto simp: jmin_def)
  from Cons.IH[of m1 ?best'] Cons.prems s1 obtain r m' where
    "solveState_dp_guesses rec P S gs ?best' m1 = Some (r, m')"
    "resValue r = foldl jmin (resValue ?best') (map (cost_dp R P S) gs)"
    "I m'" by auto
  then show ?case using b upd by simp
qed

lemma rec_ok_dp_from_IH:
  assumes IH: "\<And>arr m0. sorted arr \<Longrightarrow> wellformed P arr \<Longrightarrow> length arr \<le> fuel \<Longrightarrow> 0 < fuel \<Longrightarrow>
      I m0 \<Longrightarrow> \<exists>r m'. rec m0 arr = Some (r, m') \<and> resValue r = Num (R arr) \<and> I m'"
    and srt: "sorted S" and wf: "wellformed P S" and len: "(2::nat) \<le> length S"
    and fuel: "length S \<le> Suc fuel" and g: "g \<in> set S"
  shows "rec_ok_dp I R rec (set (buckets P S g))"
  unfolding rec_ok_dp_def
proof (intro ballI allI impI)
  fix arr m0 assume a: "arr \<in> set (buckets P S g)" and ms: "I m0"
  have w: "wellformed P arr" using buckets_wf(1)[OF wf g a] .
  have "length arr < length S" using buckets_wf(2)[OF wf g a len] .
  then have l: "length arr \<le> fuel" using fuel by simp
  have "arr \<noteq> []" using buckets_wf(3)[OF wf g a] .
  then have f: "0 < fuel" using l by (cases arr) auto
  from a obtain b where "b \<in> set (partition_loop (\<lambda>a. P g a) S [])" "arr = snd b"
    by (auto simp: buckets_def)
  then have "arr = filter (\<lambda>y. P g y = fst b) S" using partition_bucket(2) by blast
  then have s: "sorted arr" using srt by (simp add: sorted_wrt_filter)
  show "\<exists>r m'. rec m0 arr = Some (r, m') \<and> resValue r = Num (R arr) \<and> I m'"
    using s w l f ms by (rule IH)
qed

lemma solveState_dp_correct:
  "sorted S \<Longrightarrow> wellformed P S \<Longrightarrow> length S \<le> fuel \<Longrightarrow> 0 < fuel \<Longrightarrow> memo_inv_dp P m \<Longrightarrow>
    \<exists>r m'. solveState_dp fuel P m S = Some (r, m') \<and> resValue r = Num (E_skip P S) \<and>
       memo_inv_dp P m'"
proof (induction fuel arbitrary: S m)
  case 0
  then show ?case by simp
next
  case (Suc fuel)
  have key: "stateKey S = S" using Suc.prems(1) by (simp add: stateKey_def sorted_sort_id)
  show ?case
  proof (cases "length S \<le> 1")
    case True
    then have "length S = 0 \<or> length S = 1" by arith
    then show ?thesis using Suc.prems(5) by (auto simp: E_skip_small)
  next
    case False
    then have len: "(2::nat) \<le> length S" by simp
    show ?thesis
    proof (cases "map_of m S")
      case (Some cached)
      then have "resValue cached = Num (E_skip P S)"
        using Suc.prems(5) by (intro memo_inv_dp_lookup)
      then show ?thesis using Some len Suc.prems(5) key by auto
    next
      case None
      have rk: "\<forall>g\<in>set S. rec_ok_dp (memo_inv_dp P) (E_skip P) (solveState_dp fuel P)
                   (set (buckets P S g))"
        using Suc.IH Suc.prems(1,2,3) len by (intro ballI rec_ok_dp_from_IH) auto
      have nn: "\<forall>g\<in>set S. \<forall>arr\<in>set (buckets P S g). 0 \<le> E_skip P arr"
        by (simp add: E_skip_nonneg)
      from solveState_dp_guesses_contract[OF rk Suc.prems(5) nn,
          of "\<lparr>resValue = Infinity, resBestGuess = - 1\<rparr>"]
      obtain r m1 where
        gl: "solveState_dp_guesses (solveState_dp fuel P) P S S
               \<lparr>resValue = Infinity, resBestGuess = - 1\<rparr> m = Some (r, m1)"
        and rv: "resValue r = foldl jmin Infinity (map (cost_dp (E_skip P) P S) S)"
        and s1: "memo_inv_dp P m1" by auto
      have ne: "S \<noteq> []" using len by (cases S) simp_all
      have "map (cost_dp (E_skip P) P S) S = map (cost_skip (E_skip P) P S) S"
        using cost_dp_eq_cost_skip[OF ne] by simp
      then have "resValue r = Num (E_skip P S)"
        using rv ne E_skip_unfold[OF Suc.prems(2) len] by (simp add: foldl_jmin_Infinity)
      moreover from this have "memo_inv_dp P (memo_set m1 S r)"
        using s1 Suc.prems(1,2) by (intro memo_inv_dp_store)
      ultimately show ?thesis using None len gl key by auto
    qed
  qed
qed

lemma unpruned_dp_buckets_contract:
  assumes "rec_okU R rec (snd ` set bs)"
  shows "unpruned_dp_buckets rec n bs (Num e)
      = Some (Num (e + sum_list (map (\<lambda>b. if fst b = ''22222''
            then of_nat (length (snd b)) / of_nat n * 1
            else of_nat (length (snd b)) / of_nat n * (1 + R (snd b))) bs)))"
  using assms
proof (induction bs arbitrary: e)
  case Nil
  then show ?case by simp
next
  case (Cons b bs)
  obtain pat arr where b: "b = (pat, arr)" by (cases b)
  have rk: "rec_okU R rec (snd ` set bs)" using Cons.prems by (simp add: rec_okU_def)
  show ?case
  proof (cases "pat = ''22222''")
    case True
    from Cons.IH[OF rk, of "e + of_nat (length arr) / of_nat n * 1"]
    show ?thesis using True b by (simp add: prob_def add.assoc)
  next
    case False
    have r: "rec arr = Some (Num (R arr))" using Cons.prems b by (simp add: rec_okU_def)
    from Cons.IH[OF rk, of "e + of_nat (length arr) / of_nat n * (1 + R arr)"]
    show ?thesis using False b r by (simp add: prob_def add.assoc)
  qed
qed

lemma unpruned_dp_guesses_contract:
  assumes "\<forall>g\<in>set gs. rec_okU R rec (set (buckets P S g))"
  shows "unpruned_dp_guesses rec P S gs best = Some (foldl jmin best (map (cost_dp R P S) gs))"
  using assms
proof (induction gs arbitrary: best)
  case Nil
  then show ?case by simp
next
  case (Cons g gs)
  have rk: "rec_okU R rec (snd ` set (partitionState P S g))"
    using Cons.prems by (simp add: buckets_def partitionState_def)
  have b: "unpruned_dp_buckets rec (length S) (partitionState P S g) (Num 0)
      = Some (Num (cost_dp R P S g))"
    using unpruned_dp_buckets_contract[OF rk, of "length S" 0] by (simp add: cost_dp_def)
  have upd: "(if jlt (Num (cost_dp R P S g)) best then Num (cost_dp R P S g) else best)
      = jmin best (cost_dp R P S g)"
    by (simp add: jmin_def)
  from Cons.IH[of "jmin best (cost_dp R P S g)"] Cons.prems
  have "unpruned_dp_guesses rec P S gs (jmin best (cost_dp R P S g))
       = Some (foldl jmin (jmin best (cost_dp R P S g)) (map (cost_dp R P S) gs))" by simp
  then show ?case using b upd by simp
qed

lemma unpruned_dp_correct:
  "wellformed P S \<Longrightarrow> length S \<le> fuel \<Longrightarrow> 0 < fuel \<Longrightarrow>
    unpruned_dp fuel P S = Some (Num (E_skip P S))"
proof (induction fuel arbitrary: S)
  case 0
  then show ?case by simp
next
  case (Suc fuel)
  show ?case
  proof (cases "length S \<le> 1")
    case True
    then have "length S = 0 \<or> length S = 1" by arith
    then show ?thesis by (auto simp: E_skip_small)
  next
    case False
    then have len: "(2::nat) \<le> length S" by simp
    have rk: "\<forall>g\<in>set S. rec_okU (E_skip P) (unpruned_dp fuel P) (set (buckets P S g))"
    proof (intro ballI)
      fix g assume g: "g \<in> set S"
      show "rec_okU (E_skip P) (unpruned_dp fuel P) (set (buckets P S g))"
        unfolding rec_okU_def
      proof (intro ballI)
        fix arr assume a: "arr \<in> set (buckets P S g)"
        have w: "wellformed P arr" using buckets_wf(1)[OF Suc.prems(1) g a] .
        have "length arr < length S" using buckets_wf(2)[OF Suc.prems(1) g a len] .
        then have l: "length arr \<le> fuel" using Suc.prems(2) by simp
        have "arr \<noteq> []" using buckets_wf(3)[OF Suc.prems(1) g a] .
        then have "0 < fuel" using l by (cases arr) auto
        then show "unpruned_dp fuel P arr = Some (Num (E_skip P arr))"
          using w l by (intro Suc.IH)
      qed
    qed
    have ne: "S \<noteq> []" using len by (cases S) simp_all
    have "map (cost_dp (E_skip P) P S) S = map (cost_skip (E_skip P) P S) S"
      using cost_dp_eq_cost_skip[OF ne] by simp
    then have "foldl jmin Infinity (map (cost_dp (E_skip P) P S) S) = Num (E_skip P S)"
      using ne E_skip_unfold[OF Suc.prems(1) len] by (simp add: foldl_jmin_Infinity)
    then show ?thesis using unpruned_dp_guesses_contract[OF rk, of Infinity] len by auto
  qed
qed

lemma sum_list_pos_exists:
  fixes f :: "'a \<Rightarrow> rat"
  assumes "\<forall>x\<in>set xs. 0 \<le> f x" "\<exists>x\<in>set xs. 0 < f x"
  shows "0 < sum_list (map f xs)"
  using assms
proof (induction xs)
  case Nil
  then show ?case by simp
next
  case (Cons a xs)
  have rest: "0 \<le> sum_list (map f xs)" using Cons.prems(1) by (intro sum_list_nonneg) auto
  show ?case
  proof (cases "0 < f a")
    case True
    then show ?thesis using rest by simp
  next
    case False
    then have "\<exists>x\<in>set xs. 0 < f x" using Cons.prems(2) by auto
    moreover have "\<forall>x\<in>set xs. 0 \<le> f x" using Cons.prems(1) by simp
    ultimately have "0 < sum_list (map f xs)" by (rule Cons.IH[rotated])
    moreover have "0 \<le> f a" using Cons.prems(1) by simp
    ultimately show ?thesis by simp
  qed
qed

lemma other_bucket_exists:
  assumes wf: "wellformed P S" and len: "(2::nat) \<le> length S" and g: "g \<in> set S"
  shows "\<exists>b\<in>set (partition_loop (\<lambda>a. P g a) S []). fst b \<noteq> ''22222''"
proof -
  from wf have d: "distinct S" and t: "table_ok P S" by (simp_all add: wellformed_def)
  have "\<exists>a\<in>set S. a \<noteq> g"
  proof (rule ccontr)
    assume "\<not> (\<exists>a\<in>set S. a \<noteq> g)"
    then have "set S \<subseteq> {g}" by auto
    then have "card (set S) \<le> 1" by (metis card_mono finite.emptyI finite.insertI card_1_singleton_iff is_singletonI is_singleton_altdef)
    then show False using d len by (simp add: distinct_card)
  qed
  then obtain a where a: "a \<in> set S" "a \<noteq> g" by blast
  then have ne: "P g a \<noteq> ''22222''" using t g by (simp add: table_ok_def)
  have "part_inv (\<lambda>a. P g a) (partition_loop (\<lambda>a. P g a) S []) S" by (rule part_inv_partition)
  then have "P g a \<in> fst ` set (partition_loop (\<lambda>a. P g a) S [])"
    using a(1) by (simp add: part_inv_def)
  then show ?thesis using ne by force
qed

lemma cost_skip_bounds:
  assumes wf: "wellformed P S" and len: "(2::nat) \<le> length S" and g: "g \<in> set S"
    and R: "\<forall>arr\<in>set (buckets P S g). 1 \<le> R arr \<and> R arr \<le> of_nat (length arr)"
  shows "1 < cost_skip R P S g" and "cost_skip R P S g \<le> of_nat (length S)"
proof -
  let ?n = "of_nat (length S) :: rat"
  let ?bs = "partition_loop (\<lambda>a. P g a) S []"
  let ?p = "\<lambda>b. of_nat (length (snd b)) / ?n"
  let ?s = "\<lambda>b. if fst b = ''22222'' then 0 else ?p b * R (snd b)"
  have ne: "S \<noteq> []" using len by (cases S) simp_all
  have npos: "0 < ?n" using ne by simp
  have Rb: "\<And>b. b \<in> set ?bs \<Longrightarrow> 1 \<le> R (snd b) \<and> R (snd b) \<le> of_nat (length (snd b))"
    using R by (simp add: buckets_def)
  have s0: "\<forall>b\<in>set ?bs. 0 \<le> ?s b"
  proof
    fix b assume "b \<in> set ?bs"
    then have "0 \<le> R (snd b)" using Rb[of b] by linarith
    then show "0 \<le> ?s b" by (auto intro!: mult_nonneg_nonneg divide_nonneg_nonneg)
  qed
  from other_bucket_exists[OF wf len g] obtain b0 where b0: "b0 \<in> set ?bs" "fst b0 \<noteq> ''22222''"
    by blast
  have "snd b0 \<noteq> []" using partition_bucket(1)[OF b0(1)] .
  then have "0 < ?p b0" using npos by (cases "snd b0") (simp_all add: divide_pos_pos)
  moreover have "0 < R (snd b0)" using Rb[OF b0(1)] by linarith
  ultimately have "0 < ?p b0 * R (snd b0)" by (rule mult_pos_pos)
  then have "0 < ?s b0" using b0(2) by simp
  then have "\<exists>b\<in>set ?bs. 0 < ?s b" using b0(1) by blast
  then have "0 < sum_list (map ?s ?bs)" using s0 by (intro sum_list_pos_exists) simp_all
  then show "1 < cost_skip R P S g" by (simp add: cost_skip_def)
  have hi: "sum_list (map ?s ?bs) \<le> sum_list (map (\<lambda>b. ?p b * (?n - 1)) ?bs)"
  proof (rule sum_list_mono)
    fix b assume bm: "b \<in> set ?bs"
    have "length (snd b) < length S" using partition_bucket_wf(4)[OF wf g bm len] .
    then have "of_nat (length (snd b)) \<le> ?n - 1"
      by (metis Suc_leI of_nat_Suc of_nat_le_iff add.commute le_diff_eq)
    moreover have "R (snd b) \<le> of_nat (length (snd b))" using Rb[OF bm] by simp
    ultimately have r: "R (snd b) \<le> ?n - 1" by linarith
    have p0: "0 \<le> ?p b" by simp
    have "0 \<le> ?n - 1" using len by simp
    then have z: "0 \<le> ?p b * (?n - 1)" using p0 by (rule mult_nonneg_nonneg[rotated])
    have "?p b * R (snd b) \<le> ?p b * (?n - 1)" using r p0 by (rule mult_left_mono)
    then show "?s b \<le> ?p b * (?n - 1)" using z by simp
  qed
  have "sum_list (map (\<lambda>b. ?p b * (?n - 1)) ?bs) = sum_list (map ?p ?bs) * (?n - 1)"
    by (simp only: sum_list_mult_const)
  then have "sum_list (map ?s ?bs) \<le> ?n - 1"
    using hi sum_list_prob_pairs[OF ne, of P g] by simp
  then show "cost_skip R P S g \<le> of_nat (length S)" by (simp add: cost_skip_def)
qed

lemma E_skip_bounds:
  "wellformed P S \<Longrightarrow> S \<noteq> [] \<Longrightarrow>
     1 \<le> E_skip P S \<and> E_skip P S \<le> of_nat (length S) \<and> ((2::nat) \<le> length S \<longrightarrow> 1 < E_skip P S)"
proof (induction S rule: length_induct)
  case (1 S)
  show ?case
  proof (cases "length S \<le> 1")
    case True
    then have "length S = 1" using "1.prems"(2) by (cases S) auto
    then show ?thesis by (simp add: E_skip_small)
  next
    case False
    then have len: "(2::nat) \<le> length S" by simp
    have costs: "\<forall>g\<in>set S. 1 < cost_skip (E_skip P) P S g \<and> cost_skip (E_skip P) P S g \<le> of_nat (length S)"
    proof
      fix g assume g: "g \<in> set S"
      have R: "\<forall>arr\<in>set (buckets P S g). 1 \<le> E_skip P arr \<and> E_skip P arr \<le> of_nat (length arr)"
      proof
        fix arr assume a: "arr \<in> set (buckets P S g)"
        have "length arr < length S" using buckets_wf(2)[OF "1.prems"(1) g a len] .
        moreover have "wellformed P arr" using buckets_wf(1)[OF "1.prems"(1) g a] .
        moreover have "arr \<noteq> []" using buckets_wf(3)[OF "1.prems"(1) g a] .
        ultimately show "1 \<le> E_skip P arr \<and> E_skip P arr \<le> of_nat (length arr)"
          using "1.IH" by blast
      qed
      show "1 < cost_skip (E_skip P) P S g \<and> cost_skip (E_skip P) P S g \<le> of_nat (length S)"
        using cost_skip_bounds[OF "1.prems"(1) len g R] by simp
    qed
    have E: "E_skip P S = Min (set (map (cost_skip (E_skip P) P S) S))"
      using "1.prems"(1) len by (rule E_skip_unfold)
    have "set (map (cost_skip (E_skip P) P S) S) \<noteq> {}" using "1.prems"(2) by simp
    then have "Min (set (map (cost_skip (E_skip P) P S) S)) \<in> set (map (cost_skip (E_skip P) P S) S)"
      by (intro Min_in) simp_all
    then obtain g where "g \<in> set S" "E_skip P S = cost_skip (E_skip P) P S g"
      using E by auto
    then show ?thesis using costs by auto
  qed
qed

lemma memo_inv_skip_Nil: "memo_inv_skip P []"
  by (simp add: memo_inv_skip_def)

lemma memo_inv_dp_Nil: "memo_inv_dp P []"
  by (simp add: memo_inv_dp_def)

lemma value_main_correct:
  assumes "wellformed P S" "length S < fuel"
  shows "value_main fuel P S = Some (Num (E_all P S))"
proof -
  have "\<exists>m'. solveState_main fuel P [] S = Some (Num (E_all P S), m') \<and> memo_inv_all P m'"
    using assms memo_inv_all_Nil by (intro solveState_main_correct) simp_all
  then show ?thesis by (auto simp: value_main_def)
qed

lemma value_top_correct:
  assumes "wellformed P S" "length S < fuel"
  shows "value_top fuel P S = Some (Num (E_skip P S))"
proof -
  have "\<exists>m'. solveState_top fuel P [] S = Some (Num (E_skip P S), m') \<and> memo_inv_skip P m'"
    using assms memo_inv_skip_Nil by (intro solveState_top_correct) simp_all
  then show ?thesis by (auto simp: value_top_def)
qed

lemma value_dp_correct:
  assumes "sorted S" "wellformed P S" "length S < fuel"
  shows "value_dp fuel P S = Some (Num (E_skip P S))"
proof -
  have "\<exists>r m'. solveState_dp fuel P [] S = Some (r, m') \<and> resValue r = Num (E_skip P S)
      \<and> memo_inv_dp P m'"
    using assms memo_inv_dp_Nil by (intro solveState_dp_correct) simp_all
  then show ?thesis by (auto simp: value_dp_def)
qed

lemma memo_holds_iff:
  assumes "\<And>S. wellformed P S \<Longrightarrow> solver (Suc (length S)) P S = Some (Num (R S))"
  shows "memo_holds solver P m = (\<forall>e\<in>set m. wellformed P (fst e) \<and> snd e = Num (R (fst e)))"
proof -
  have "\<And>e. wellformed P (fst e) \<Longrightarrow>
      (solver (Suc (length (fst e))) P (fst e) = Some (snd e)) = (snd e = Num (R (fst e)))"
  proof -
    fix e :: "nat list \<times> jsnum" assume "wellformed P (fst e)"
    then have "solver (Suc (length (fst e))) P (fst e) = Some (Num (R (fst e)))" by (rule assms)
    then show "(solver (Suc (length (fst e))) P (fst e) = Some (snd e)) = (snd e = Num (R (fst e)))"
      by auto
  qed
  then show ?thesis unfolding memo_holds_def by blast
qed

lemma memo_holds_value_main_iff: "memo_holds value_main P m = memo_inv_all P m"
  unfolding memo_inv_all_def by (rule memo_holds_iff) (simp add: value_main_correct)

lemma memo_holds_value_top_iff: "memo_holds value_top P m = memo_inv_skip P m"
  unfolding memo_inv_skip_def by (rule memo_holds_iff) (simp add: value_top_correct)

lemma memo_holds_dp_iff:
  assumes "\<And>S. sorted S \<Longrightarrow> wellformed P S \<Longrightarrow> solver (Suc (length S)) P S = Some (Num (E_skip P S))"
  shows "memo_holds_dp solver P m = memo_inv_dp P m"
proof -
  have "\<And>e :: nat list \<times> result. sorted (fst e) \<Longrightarrow> wellformed P (fst e) \<Longrightarrow>
      (solver (Suc (length (fst e))) P (fst e) = Some (resValue (snd e)))
        = (resValue (snd e) = Num (E_skip P (fst e)))"
  proof -
    fix e :: "nat list \<times> result" assume "sorted (fst e)" "wellformed P (fst e)"
    then have "solver (Suc (length (fst e))) P (fst e) = Some (Num (E_skip P (fst e)))"
      by (rule assms)
    then show "(solver (Suc (length (fst e))) P (fst e) = Some (resValue (snd e)))
        = (resValue (snd e) = Num (E_skip P (fst e)))" by auto
  qed
  then show ?thesis unfolding memo_holds_dp_def memo_inv_dp_def by blast
qed

lemma memo_holds_dp_value_iff: "memo_holds_dp value_dp P m = memo_inv_dp P m"
  by (rule memo_holds_dp_iff) (simp add: value_dp_correct)

lemma memo_holds_dp_unpruned_iff: "memo_holds_dp unpruned_dp P m = memo_inv_dp P m"
  by (rule memo_holds_dp_iff) (rule unpruned_dp_correct, simp_all)

lemma all_correct_bucket_mem:
  assumes wf: "wellformed P S" and g: "g \<in> set S"
  shows "(''22222'', [g]) \<in> set (partition_loop (\<lambda>a. P g a) S [])"
    and "[g] \<in> set (buckets P S g)"
proof -
  have "part_inv (\<lambda>a. P g a) (partition_loop (\<lambda>a. P g a) S []) S" by (rule part_inv_partition)
  then have "P g g \<in> fst ` set (partition_loop (\<lambda>a. P g a) S [])"
    using g by (simp add: part_inv_def)
  moreover have "P g g = ''22222''" using wf g by (simp add: wellformed_def table_ok_def)
  ultimately obtain b where b: "b \<in> set (partition_loop (\<lambda>a. P g a) S [])" "fst b = ''22222''"
    by force
  have "snd b = [g]" using partition_bucket_wf(2)[OF wf g b] .
  then have "b = (''22222'', [g])" using b(2) by (cases b) simp
  then show m: "(''22222'', [g]) \<in> set (partition_loop (\<lambda>a. P g a) S [])" using b(1) by simp
  show "[g] \<in> set (buckets P S g)" unfolding buckets_def using m by force
qed

lemma bucket_length_le:
  assumes "arr \<in> set (buckets P S g)"
  shows "length arr \<le> length S"
proof -
  from assms obtain b where b: "b \<in> set (partition_loop (\<lambda>a. P g a) S [])" and a: "arr = snd b"
    by (auto simp: buckets_def)
  show ?thesis using partition_bucket(2)[OF b] a by (metis length_filter_le)
qed

lemma rec_ok_root:
  assumes corr: "\<And>arr m0. wellformed P arr \<Longrightarrow> length arr \<le> fuel \<Longrightarrow> 0 < fuel \<Longrightarrow> I m0 \<Longrightarrow>
      \<exists>m'. rec m0 arr = Some (Num (R arr), m') \<and> I m'"
    and wf: "wellformed P S" and g: "g \<in> set S" and fuel: "length S < fuel"
  shows "rec_ok I R rec (set (buckets P S g))"
  unfolding rec_ok_def
proof (intro ballI allI impI)
  fix arr m0 assume a: "arr \<in> set (buckets P S g)" and ms: "I m0"
  have w: "wellformed P arr" using buckets_wf(1)[OF wf g a] .
  have l: "length arr \<le> fuel" using bucket_length_le[OF a] fuel by simp
  have f: "0 < fuel" using fuel by simp
  show "\<exists>m'. rec m0 arr = Some (Num (R arr), m') \<and> I m'" using corr[OF w l f ms] .
qed

lemma rec_ok_subset: "rec_ok I R rec A \<Longrightarrow> B \<subseteq> A \<Longrightarrow> rec_ok I R rec B"
  unfolding rec_ok_def by blast

lemma expectedGivenFirstGuess_value:
  assumes wf: "wellformed P U" and g: "rootIdx \<in> set U" and fuel: "length U < fuel"
    and m: "memo_inv_all P m"
  shows "\<exists>m'. expectedGivenFirstGuess fuel P m rootIdx U
      = Some (Num (1 + sum_list (map (\<lambda>arr. of_nat (length arr) / of_nat (length U) * E_all P arr)
                 (buckets P U rootIdx))), m') \<and> memo_inv_all P m'"
proof -
  have rk: "rec_ok (memo_inv_all P) (E_all P) (solveState_main fuel P) (set (buckets P U rootIdx))"
    using wf g fuel by (intro rec_ok_root[where fuel = fuel] solveState_main_correct)
  from root_buckets_contract[OF rk m, of "length U" 0]
  obtain m' where r: "root_buckets (solveState_main fuel P) (length U) (buckets P U rootIdx) (Num 0) m
      = Some (Num (0 + sum_list (map (\<lambda>arr. of_nat (length arr) / of_nat (length U) * E_all P arr)
                 (buckets P U rootIdx))), m')" and i: "memo_inv_all P m'" by blast
  show ?thesis using r i by (simp add: expectedGivenFirstGuess_def buckets_def)
qed

lemma solveWithFixedRoot_value:
  assumes wf: "wellformed P [0..<n]" and g: "rootIdx < n" and fuel: "n < fuel"
    and m: "memo_inv_all P m"
  shows "\<exists>m'. solveWithFixedRoot cap fuel P n m rootIdx
      = Some (Num (1 + sum_list (map (\<lambda>arr. of_nat (length arr) / of_nat n * E_all P arr)
                 (buckets P [0..<n] rootIdx))), m') \<and> memo_inv_all P m'"
proof -
  have g': "rootIdx \<in> set [0..<n]" using g by simp
  have fuel': "length [0..<n] < fuel" using fuel by simp
  have rk: "rec_ok (memo_inv_all P) (E_all P) (solveTail cap fuel P) (set (buckets P [0..<n] rootIdx))"
    unfolding solveTail_def using wf g' fuel' store_ok_memoStore
    by (intro rec_ok_root[where fuel = fuel] solveTail_with_correct)
  from root_buckets_contract[OF rk m, of n 0]
  obtain m' where r: "root_buckets (solveTail cap fuel P) n (buckets P [0..<n] rootIdx) (Num 0) m
      = Some (Num (0 + sum_list (map (\<lambda>arr. of_nat (length arr) / of_nat n * E_all P arr)
                 (buckets P [0..<n] rootIdx))), m')" and i: "memo_inv_all P m'" by blast
  show ?thesis using r i by (simp add: solveWithFixedRoot_def buckets_def)
qed

lemma expectedWithRoot_value:
  assumes wf: "wellformed P [0..<n]" and g: "rootIdx < n" and fuel: "n < fuel"
    and m: "memo_inv_skip P m"
  shows "\<exists>m'. expectedWithRoot fuel P n m rootIdx
      = Some (Num (1 + sum_list (map (\<lambda>b. if fst b = ''22222'' then 0
                   else of_nat (length (snd b)) / of_nat n * E_skip P (snd b))
                 (partition_loop (\<lambda>a. P rootIdx a) [0..<n] []))), m') \<and> memo_inv_skip P m'"
proof -
  let ?bs = "partition_loop (\<lambda>a. P rootIdx a) [0..<n] []"
  have g': "rootIdx \<in> set [0..<n]" using g by simp
  have fuel': "length [0..<n] < fuel" using fuel by simp
  have rk: "rec_ok (memo_inv_skip P) (E_skip P) (solveState_top fuel P) (set (buckets P [0..<n] rootIdx))"
    using wf g' fuel' by (intro rec_ok_root[where fuel = fuel] solveState_top_correct)
  have "snd ` {b \<in> set ?bs. fst b \<noteq> ''22222''} \<subseteq> set (buckets P [0..<n] rootIdx)"
    by (auto simp: buckets_def)
  with rk have rk': "rec_ok (memo_inv_skip P) (E_skip P) (solveState_top fuel P)
      (snd ` {b \<in> set ?bs. fst b \<noteq> ''22222''})" by (rule rec_ok_subset)
  from expectedWithRoot_buckets_contract[OF rk' m, of n 0]
  obtain m' where r: "expectedWithRoot_buckets (solveState_top fuel P) n ?bs (Num 0) m
      = Some (Num (0 + sum_list (map (\<lambda>b. if fst b = ''22222'' then 0
                   else of_nat (length (snd b)) / of_nat n * E_skip P (snd b)) ?bs)), m')"
    and i: "memo_inv_skip P m'" by blast
  show ?thesis using r i by (simp add: expectedWithRoot_def)
qed

lemma words2_wellformed: "wellformed (buildTable patternFor words2) [0..<2]"
  by (rule buildTable_wellformed) (simp_all add: words2_def)

lemma patternFor_allow_llama: "patternFor ''allow'' ''llama'' = ''12100''"
  by code_simp

lemma words2_partition:
  "partition_loop (\<lambda>a. buildTable patternFor words2 0 a) [0..<2] []
     = [(''22222'', [0]), (''12100'', [1])]"
proof -
  have u: "[0..<2] = [0, Suc 0]" by (simp add: upt_rec)
  have k: "buildTable patternFor words2 0 (Suc 0) = ''12100''"
    by (simp add: buildTable_def words2_def patternFor_allow_llama)
  have "table_ok (buildTable patternFor words2) [0, Suc 0]"
    using words2_table_ok(1) by simp
  then show ?thesis using two_buckets(1)[of 0 "Suc 0" "buildTable patternFor words2"] k u by simp
qed

section \<open>Claims about feedback and partition\<close>

text \<open>
  C2: for every guess and secret and every letter, the number of guess positions holding
  that letter and marked present-elsewhere (\<open>1\<close>) is at most the number of answer positions
  holding that letter that are not matched as correct, for \<open>pattern\<close> of \<open>main.js\<close> and for
  \<open>patternFor\<close> of the table generator; so a letter that the answer holds at most once is
  marked present-elsewhere at most once.
\<close>

theorem duplicate_letters_bounded:
  "length (filter (\<lambda>i. char_at g i = Some c \<and> pattern g a ! i = CHR ''1'') [0..<5])
     \<le> length (filter (\<lambda>j. char_at a j = Some c \<and> char_at g j \<noteq> char_at a j) [0..<5]) \<and>
   length (filter (\<lambda>i. char_at g i = Some c \<and> patternFor_counts g a ! i = CHR ''1'') [0..<5])
     \<le> length (filter (\<lambda>j. char_at a j = Some c \<and> char_at g j \<noteq> char_at a j) [0..<5]) \<and>
   (length (filter (\<lambda>j. char_at a j = Some c) [0..<5]) \<le> 1 \<longrightarrow>
      length (filter (\<lambda>i. char_at g i = Some c \<and> pattern g a ! i = CHR ''1'') [0..<5]) \<le> 1)"
proof -
  have "{j. j < 5 \<and> char_at a j \<noteq> char_at g j \<and> char_at a j = Some c}
      = {j. j < 5 \<and> char_at a j = Some c \<and> char_at g j \<noteq> char_at a j}" by auto
  then have main: "length (filter (\<lambda>i. char_at g i = Some c \<and> pattern g a ! i = CHR ''1'') [0..<5])
     \<le> length (filter (\<lambda>j. char_at a j = Some c \<and> char_at g j \<noteq> char_at a j) [0..<5])"
    using pattern_yellow_bound[of g "Some c" a] by (simp only: length_filter_upt)
  have "length (filter (\<lambda>j. char_at a j = Some c \<and> char_at g j \<noteq> char_at a j) [0..<5])
     \<le> length (filter (\<lambda>j. char_at a j = Some c) [0..<5])"
  proof -
    have "filter (\<lambda>j. char_at a j = Some c \<and> char_at g j \<noteq> char_at a j) [0..<5]
        = filter (\<lambda>j. char_at g j \<noteq> char_at a j) (filter (\<lambda>j. char_at a j = Some c) [0..<5])"
      by (simp only: filter_filter)
    then show ?thesis by (simp only: length_filter_le)
  qed
  then have "length (filter (\<lambda>j. char_at a j = Some c) [0..<5]) \<le> 1 \<longrightarrow>
      length (filter (\<lambda>i. char_at g i = Some c \<and> pattern g a ! i = CHR ''1'') [0..<5]) \<le> 1"
    using main by linarith
  then show ?thesis using main by (simp only: patternFor_counts_eq_pattern)
qed

text \<open>The guess \<open>allow\<close> against the answer \<open>llama\<close>: one \<open>l\<close> is unmatched in the answer.\<close>

theorem duplicate_letters_bounded_witness:
  "length (filter (\<lambda>i. char_at ''allow'' i = Some CHR ''l'' \<and>
       pattern ''allow'' ''llama'' ! i = CHR ''1'') [0..<5]) \<le> 1"
  using duplicate_letters_bounded[of "''allow''" "CHR ''l''" "''llama''"]
  by (simp only: unmatched_l_in_llama)

text \<open>
  C9: on five-letter words, the count-based \<open>pattern\<close>, the used-array \<open>patternOf\<close> and
  \<open>patternFor\<close>, and the mixed \<open>patternFor\<close> of the table generator all compute the code of
  the two-pass algorithm of the specification, hence are pairwise equal.
\<close>

theorem feedback_implementations_agree:
  assumes "length g = 5" "length a = 5"
  shows "pattern g a = spec_compute g a \<and> patternOf g a = spec_compute g a \<and>
         patternFor g a = spec_compute g a \<and> patternFor_counts g a = spec_compute g a"
  using pattern_eq_spec_compute[OF assms]
  by (simp only: patternOf_eq_pattern patternFor_eq_pattern patternFor_counts_eq_pattern)

theorem feedback_implementations_agree_witness:
  "pattern ''allow'' ''llama'' = ''12100'' \<and> patternOf ''allow'' ''llama'' = ''12100'' \<and>
   patternFor ''allow'' ''llama'' = ''12100'' \<and> patternFor_counts ''allow'' ''llama'' = ''12100'' \<and>
   spec_compute ''allow'' ''llama'' = ''12100''"
proof -
  have "length ''allow'' = 5" "length ''llama'' = 5" by simp_all
  from feedback_implementations_agree[OF this] show ?thesis
    using pattern_allow_llama by simp
qed

text \<open>
  C10: for five-letter words the code is all-correct exactly when guess and answer are the
  same word; hence, for a guess that is a member of a duplicate-free candidate set, the
  all-correct bucket of the partition is the singleton of the guess.
\<close>

theorem all_correct_iff_same_word:
  "(length g = 5 \<and> length a = 5 \<longrightarrow>
      ((pattern g a = ''22222'') = (g = a)) \<and> ((patternFor g a = ''22222'') = (g = a))) \<and>
   (distinct S \<and> g \<in> set S \<and> (\<forall>w\<in>set S. length w = 5) \<longrightarrow>
      map_of (partitionByPattern S g) ''22222'' = Some [g])"
proof -
  have "length g = 5 \<and> length a = 5 \<longrightarrow>
      ((pattern g a = ''22222'') = (g = a)) \<and> ((patternFor g a = ''22222'') = (g = a))"
    using pattern_all_correct_iff[of g a] by (simp only: patternFor_eq_pattern) simp
  moreover have "distinct S \<and> g \<in> set S \<and> (\<forall>w\<in>set S. length w = 5) \<longrightarrow>
      map_of (partitionByPattern S g) ''22222'' = Some [g]"
    using all_correct_bucket[of S g] by simp
  ultimately show ?thesis by (rule conjI)
qed

theorem all_correct_iff_same_word_witness:
  "pattern ''allow'' ''llama'' \<noteq> ''22222'' \<and> patternFor ''allow'' ''llama'' \<noteq> ''22222'' \<and>
   map_of (partitionByPattern [''allow'', ''llama'', ''alloy'', ''wally''] ''allow'') ''22222''
     = Some [''allow'']"
  using all_correct_iff_same_word[of "''allow''" "''llama''"
      "[''allow'', ''llama'', ''alloy'', ''wally'']"]
  by simp

text \<open>
  C6: in the result of \<open>partitionByPattern\<close> and of \<open>partitionState\<close> no feedback code
  is the key of two buckets, and the bucket of a code is exactly the elements of the set
  with that code, in the order of the set. Hence the buckets are non-empty, hold only
  elements of the set, are pairwise disjoint, every element lies in exactly one bucket,
  the one keyed by its code, and the bucket sizes sum to the size of the set.
\<close>

theorem partition_buckets:
  "is_partition (\<lambda>ans. pattern guess ans) S (partitionByPattern S guess) \<and>
   is_partition (\<lambda>ansIdx. patternMatrix guessIdx ansIdx) SIndices
      (partitionState patternMatrix SIndices guessIdx)"
  using partition_loop_is_partition[of "\<lambda>ans. pattern guess ans" S]
    partition_loop_is_partition[of "\<lambda>ansIdx. patternMatrix guessIdx ansIdx" SIndices]
  by (simp add: partitionByPattern_def partitionState_def)

text \<open>
  The guess \<open>allow\<close> against a set in which \<open>crimp\<close> and \<open>tents\<close> have the same code
  and are not adjacent: they are grouped in one bucket, at the place of the first.
\<close>

theorem partition_buckets_witness:
  "is_partition (\<lambda>ans. pattern ''allow'' ans) [''allow'', ''crimp'', ''llama'', ''tents'']
     [(''22222'', [''allow'']), (''00000'', [''crimp'', ''tents'']), (''12100'', [''llama''])] \<and>
   is_partition (\<lambda>ansIdx. buildTable pattern [''allow'', ''crimp'', ''llama'', ''tents''] 0 ansIdx)
     [0, 1, 2, 3] [(''22222'', [0]), (''00000'', [1, 3]), (''12100'', [2])]"
  using partition_buckets[of "''allow''" "[''allow'', ''crimp'', ''llama'', ''tents'']"
      "buildTable pattern [''allow'', ''crimp'', ''llama'', ''tents'']" 0 "[0, 1, 2, 3]"]
  by (simp only: partition_example partitionState_example)

section \<open>Claims about the exact solvers\<close>

text \<open>
  C1: on a two-element candidate set the solvers do not agree. \<open>solveState\<close> of
  \<open>dp_solver.js\<close> and of \<open>dp_top200.js\<close> return 3/2, as the specification says;
  \<open>solveState\<close> of \<open>main.js\<close> passes the all-correct bucket to the recursion, which
  charges one more guess for a word already guessed, and returns 2. The values below
  are for the word list \<open>allow, llama\<close> and the empty memo.
\<close>

theorem two_candidates_values:
  "solveState_main 2 (buildTable patternFor words2) [] [0, 1] = Some (Num 2, [([0, 1], Num 2)]) \<and>
   solveState_dp 2 (buildTable patternOf words2) [] [0, 1]
     = Some (\<lparr>resValue = Num (3/2), resBestGuess = 0\<rparr>,
             [([0, 1], \<lparr>resValue = Num (3/2), resBestGuess = 0\<rparr>)]) \<and>
   solveState_top 2 (buildTable patternFor words2) [] [0, 1]
     = Some (Num (3/2), [([0, 1], Num (3/2))])"
proof -
  have ne: "(0::nat) \<noteq> 1" and lt: "(0::nat) < 1" by simp_all
  have two: "(2::nat) = Suc (Suc 0)" by simp
  show ?thesis
    using two_candidates_main[OF ne words2_table_ok(1), of 0]
      two_candidates_dp[OF lt words2_table_ok(2), of 0]
      two_candidates_top[OF ne words2_table_ok(1), of 0]
    by (simp only: two) simp
qed

text \<open>
  C3 (as amended): the cost of a forced first guess over the full universe \<open>0 .. n-1\<close>.
  \<open>expectedGivenFirstGuess\<close> of \<open>main.js\<close> and \<open>solveWithFixedRoot\<close> of
  \<open>dp_top_blocks.js\<close> return 1 plus the sum over every bucket of the partition of
  \<open>|bucket| / n\<close> times the value that the recursive evaluator returns for the bucket;
  the all-correct bucket \<open>[rootIdx]\<close> is in the partition, is passed to the evaluator
  like any other bucket, and its value is 1, so that it contributes \<open>p \<cdot> 1\<close>.
  \<open>expectedWithRoot\<close> of \<open>dp_top200.js\<close> returns 1 plus the same sum over the buckets
  other than the all-correct one, which contributes 0. The evaluator values \<open>ev_main\<close>,
  \<open>ev_tail\<close>, \<open>ev_top\<close> are those of \<open>solveState\<close> of \<open>main.js\<close>, \<open>solveTail\<close>
  and \<open>solveState\<close> of \<open>dp_top200.js\<close> run from the empty memo; the memos passed in
  hold such values.
\<close>

theorem root_cost:
  assumes "wellformed P [0..<n]" "rootIdx < n" "n < fuel"
    and "memo_holds value_main P m1" "memo_holds solveTail_nomemo P m2"
    and "memo_holds value_top P m3"
  shows "\<exists>ev_main ev_tail ev_top.
     (\<forall>arr\<in>set (buckets P [0..<n] rootIdx).
        value_main fuel P arr = Some (Num (ev_main arr)) \<and>
        solveTail_nomemo fuel P arr = Some (Num (ev_tail arr)) \<and>
        value_top fuel P arr = Some (Num (ev_top arr))) \<and>
     (''22222'', [rootIdx]) \<in> set (partition_loop (\<lambda>a. P rootIdx a) [0..<n] []) \<and>
     ev_main [rootIdx] = 1 \<and> ev_tail [rootIdx] = 1 \<and>
     (\<exists>m'. expectedGivenFirstGuess fuel P m1 rootIdx [0..<n]
        = Some (Num (1 + sum_list (map (\<lambda>arr. of_nat (length arr) / of_nat n * ev_main arr)
                   (buckets P [0..<n] rootIdx))), m')) \<and>
     (\<exists>m'. solveWithFixedRoot cap fuel P n m2 rootIdx
        = Some (Num (1 + sum_list (map (\<lambda>arr. of_nat (length arr) / of_nat n * ev_tail arr)
                   (buckets P [0..<n] rootIdx))), m')) \<and>
     (\<exists>m'. expectedWithRoot fuel P n m3 rootIdx
        = Some (Num (1 + sum_list (map (\<lambda>b. if fst b = ''22222'' then 0
                     else of_nat (length (snd b)) / of_nat n * ev_top (snd b))
                   (partition_loop (\<lambda>a. P rootIdx a) [0..<n] []))), m'))"
proof -
  have g: "rootIdx \<in> set [0..<n]" using assms(2) by simp
  have fuel: "length [0..<n] < fuel" using assms(3) by simp
  have vals: "\<forall>arr\<in>set (buckets P [0..<n] rootIdx).
        value_main fuel P arr = Some (Num (E_all P arr)) \<and>
        solveTail_nomemo fuel P arr = Some (Num (E_all P arr)) \<and>
        value_top fuel P arr = Some (Num (E_skip P arr))"
  proof
    fix arr assume a: "arr \<in> set (buckets P [0..<n] rootIdx)"
    have w: "wellformed P arr" using buckets_wf(1)[OF assms(1) g a] .
    have l: "length arr < fuel" using bucket_length_le[OF a] fuel by simp
    show "value_main fuel P arr = Some (Num (E_all P arr)) \<and>
        solveTail_nomemo fuel P arr = Some (Num (E_all P arr)) \<and>
        value_top fuel P arr = Some (Num (E_skip P arr))"
      using value_main_correct[OF w l] solveTail_nomemo_correct[OF w l] value_top_correct[OF w l]
      by simp
  qed
  have ac: "(''22222'', [rootIdx]) \<in> set (partition_loop (\<lambda>a. P rootIdx a) [0..<n] [])"
    using all_correct_bucket_mem(1)[OF assms(1) g] .
  have one: "E_all P [rootIdx] = 1" by (simp add: E_all_small)
  have e1: "\<exists>m'. expectedGivenFirstGuess fuel P m1 rootIdx [0..<n]
        = Some (Num (1 + sum_list (map (\<lambda>arr. of_nat (length arr) / of_nat n * E_all P arr)
                   (buckets P [0..<n] rootIdx))), m')"
    using expectedGivenFirstGuess_value[OF assms(1) g fuel, of m1] assms(4)
    by (auto simp: memo_holds_value_main_iff)
  have e2: "\<exists>m'. solveWithFixedRoot cap fuel P n m2 rootIdx
        = Some (Num (1 + sum_list (map (\<lambda>arr. of_nat (length arr) / of_nat n * E_all P arr)
                   (buckets P [0..<n] rootIdx))), m')"
    using solveWithFixedRoot_value[OF assms(1,2,3), of m2 cap] assms(5)
    by (auto simp: memo_holds_nomemo_iff)
  have e3: "\<exists>m'. expectedWithRoot fuel P n m3 rootIdx
        = Some (Num (1 + sum_list (map (\<lambda>b. if fst b = ''22222'' then 0
                     else of_nat (length (snd b)) / of_nat n * E_skip P (snd b))
                   (partition_loop (\<lambda>a. P rootIdx a) [0..<n] []))), m')"
    using expectedWithRoot_value[OF assms(1,2,3), of m3] assms(6)
    by (auto simp: memo_holds_value_top_iff)
  show ?thesis
    apply (rule exI[of _ "E_all P"])
    apply (rule exI[of _ "E_all P"])
    apply (rule exI[of _ "E_skip P"])
    using vals ac one e1 e2 e3 apply (intro conjI)
          apply assumption+
    done
qed

text \<open>
  The two-word list \<open>allow, llama\<close> with root \<open>allow\<close>.
\<close>

theorem root_cost_witness:
  "\<exists>ev_main ev_tail ev_top.
     (\<forall>arr\<in>set (buckets (buildTable patternFor words2) [0..<2] 0).
        value_main 3 (buildTable patternFor words2) arr = Some (Num (ev_main arr)) \<and>
        solveTail_nomemo 3 (buildTable patternFor words2) arr = Some (Num (ev_tail arr)) \<and>
        value_top 3 (buildTable patternFor words2) arr = Some (Num (ev_top arr))) \<and>
     (''22222'', [0]) \<in> set (partition_loop (\<lambda>a. buildTable patternFor words2 0 a) [0..<2] []) \<and>
     ev_main [0] = 1 \<and> ev_tail [0] = 1 \<and>
     (\<exists>m'. expectedGivenFirstGuess 3 (buildTable patternFor words2) [] 0 [0..<2]
        = Some (Num (1 + sum_list (map (\<lambda>arr. of_nat (length arr) / of_nat 2 * ev_main arr)
                   (buckets (buildTable patternFor words2) [0..<2] 0))), m')) \<and>
     (\<exists>m'. solveWithFixedRoot 1 3 (buildTable patternFor words2) 2 [] 0
        = Some (Num (1 + sum_list (map (\<lambda>arr. of_nat (length arr) / of_nat 2 * ev_tail arr)
                   (buckets (buildTable patternFor words2) [0..<2] 0))), m')) \<and>
     (\<exists>m'. expectedWithRoot 3 (buildTable patternFor words2) 2 [] 0
        = Some (Num (1 + sum_list (map (\<lambda>b. if fst b = ''22222'' then 0
                     else of_nat (length (snd b)) / of_nat 2 * ev_top (snd b))
                   (partition_loop (\<lambda>a. buildTable patternFor words2 0 a) [0..<2] []))), m'))"
proof -
  have "memo_holds value_main (buildTable patternFor words2) []"
    "memo_holds solveTail_nomemo (buildTable patternFor words2) []"
    "memo_holds value_top (buildTable patternFor words2) []"
    by (simp_all add: memo_holds_def)
  then show ?thesis
    using root_cost[OF words2_wellformed, of 0 3 "[]" "[]" "[]" 1] by simp
qed

text \<open>
  The claim as stated, that the all-correct bucket contributes \<open>p \<cdot> 1\<close> in every root
  evaluator, is false for \<open>expectedWithRoot\<close>: on the list \<open>allow, llama\<close> with root
  \<open>allow\<close> the buckets are \<open>[0]\<close> (all-correct) and \<open>[1]\<close>, the evaluator returns 1 for
  each, the stated formula gives \<open>1 + (1/2 \<cdot> 1 + 1/2 \<cdot> 1) = 2\<close>, and the function returns
  3/2.
\<close>

theorem all_correct_bucket_adds_nothing_in_expectedWithRoot:
  "partition_loop (\<lambda>a. buildTable patternFor words2 0 a) [0..<2] []
     = [(''22222'', [0]), (''12100'', [1])] \<and>
   value_top 3 (buildTable patternFor words2) [0] = Some (Num 1) \<and>
   value_top 3 (buildTable patternFor words2) [1] = Some (Num 1) \<and>
   expectedWithRoot 3 (buildTable patternFor words2) 2 [] 0 = Some (Num (3/2), []) \<and>
   (1 + (1/2 * 1 + 1/2 * 1) :: rat) \<noteq> 3/2"
proof -
  have three: "(3::nat) = Suc (Suc (Suc 0))" by simp
  have v: "value_top 3 (buildTable patternFor words2) [0] = Some (Num 1)"
    "value_top 3 (buildTable patternFor words2) [1] = Some (Num 1)"
    by (simp_all only: three value_top_def) simp_all
  have e: "expectedWithRoot 3 (buildTable patternFor words2) 2 [] 0 = Some (Num (3/2), [])"
    unfolding expectedWithRoot_def words2_partition
    by (simp only: three) (simp add: prob_def)
  show ?thesis using words2_partition v e by simp
qed

text \<open>
  C4: branch-and-bound never changes the computed optimum. For a wellformed candidate
  set and enough fuel, \<open>solveState\<close> of \<open>main.js\<close> and \<open>solveTail\<close> of
  \<open>dp_top_blocks.js\<close> return the value of \<open>unpruned_all\<close>, the same loop with the
  early exit removed, and \<open>solveState\<close> of \<open>dp_solver.js\<close> (on a sorted set) returns
  the value of \<open>unpruned_dp\<close>, its loop with the early exit removed. The memos passed in
  hold values of the unpruned solver, and so do the memos that the runs leave behind.
\<close>

theorem pruning_preserves_optimum:
  assumes "wellformed P S" "length S < fuel" "sorted S"
    and "memo_holds unpruned_all P m" "memo_holds unpruned_all P m'"
    and "memo_holds_dp unpruned_dp P dp"
  shows "(\<exists>v. unpruned_all fuel P S = Some v \<and>
            (\<exists>m1. solveState_main fuel P m S = Some (v, m1) \<and> memo_holds unpruned_all P m1) \<and>
            (\<exists>m2. solveTail cap fuel P m' S = Some (v, m2) \<and> memo_holds unpruned_all P m2)) \<and>
         (\<exists>r dp'. solveState_dp fuel P dp S = Some (r, dp') \<and>
            unpruned_dp fuel P S = Some (resValue r) \<and> memo_holds_dp unpruned_dp P dp')"
proof -
  have f: "length S \<le> fuel" "0 < fuel" using assms(2) by simp_all
  have u: "unpruned_all fuel P S = Some (Num (E_all P S))"
    using assms(1) f by (rule unpruned_all_correct)
  have ud: "unpruned_dp fuel P S = Some (Num (E_skip P S))"
    using assms(1) f by (rule unpruned_dp_correct)
  have "\<exists>m1. solveState_main fuel P m S = Some (Num (E_all P S), m1) \<and> memo_inv_all P m1"
    using assms(1) f assms(4) by (intro solveState_main_correct) (simp_all add: memo_holds_unpruned_iff)
  moreover have "\<exists>m2. solveTail_with (memoStore cap) fuel P m' S = Some (Num (E_all P S), m2)
      \<and> memo_inv_all P m2"
    using store_ok_memoStore assms(1) f assms(5)
    by (intro solveTail_with_correct) (simp_all add: memo_holds_unpruned_iff)
  ultimately have all: "\<exists>v. unpruned_all fuel P S = Some v \<and>
            (\<exists>m1. solveState_main fuel P m S = Some (v, m1) \<and> memo_holds unpruned_all P m1) \<and>
            (\<exists>m2. solveTail cap fuel P m' S = Some (v, m2) \<and> memo_holds unpruned_all P m2)"
    using u by (simp add: solveTail_def memo_holds_unpruned_iff)
  have "\<exists>r dp'. solveState_dp fuel P dp S = Some (r, dp') \<and> resValue r = Num (E_skip P S) \<and>
       memo_inv_dp P dp'"
    using assms(3,1) f assms(6)
    by (intro solveState_dp_correct) (simp_all add: memo_holds_dp_unpruned_iff)
  then have "\<exists>r dp'. solveState_dp fuel P dp S = Some (r, dp') \<and>
            unpruned_dp fuel P S = Some (resValue r) \<and> memo_holds_dp unpruned_dp P dp'"
    using ud by (auto simp: memo_holds_dp_unpruned_iff)
  with all show ?thesis by (rule conjI)
qed

text \<open>
  The three-word list \<open>allow, llama, alloy\<close>, empty memos, capacity 1.
\<close>

theorem pruning_preserves_optimum_witness:
  "(\<exists>v. unpruned_all 4 (buildTable patternFor words3) [0, 1, 2] = Some v \<and>
      (\<exists>m1. solveState_main 4 (buildTable patternFor words3) [] [0, 1, 2] = Some (v, m1) \<and>
             memo_holds unpruned_all (buildTable patternFor words3) m1) \<and>
      (\<exists>m2. solveTail 1 4 (buildTable patternFor words3) [] [0, 1, 2] = Some (v, m2) \<and>
             memo_holds unpruned_all (buildTable patternFor words3) m2)) \<and>
   (\<exists>r dp'. solveState_dp 4 (buildTable patternFor words3) [] [0, 1, 2] = Some (r, dp') \<and>
      unpruned_dp 4 (buildTable patternFor words3) [0, 1, 2] = Some (resValue r) \<and>
      memo_holds_dp unpruned_dp (buildTable patternFor words3) dp')"
proof -
  have "memo_holds unpruned_all (buildTable patternFor words3) []"
    "memo_holds_dp unpruned_dp (buildTable patternFor words3) []"
    by (simp_all add: memo_holds_def memo_holds_dp_def)
  then show ?thesis
    using pruning_preserves_optimum[OF words3_wellformed, of 4 "[]" "[]" "[]" 1] by simp
qed

text \<open>
  C5: the memo is transparent. For a wellformed candidate set and enough fuel, and for
  memos whose entries hold what the memo-free solver returns for their key, \<open>solveTail\<close>
  returns the same value with no memoization, with the bounded memo of any capacity
  (evicting the oldest tenth when full) and with the unbounded memo; the memos that the
  runs leave behind are again of that kind.
\<close>

theorem memo_transparent:
  assumes "wellformed P S" "length S < fuel"
    and "memo_holds solveTail_nomemo P m" "memo_holds solveTail_nomemo P m'"
  shows "\<exists>v. solveTail_nomemo fuel P S = Some v \<and>
     (\<exists>m1. solveTail cap fuel P m S = Some (v, m1) \<and> memo_holds solveTail_nomemo P m1) \<and>
     (\<exists>m2. solveTail_unbounded fuel P m' S = Some (v, m2) \<and> memo_holds solveTail_nomemo P m2)"
proof -
  have f: "length S \<le> fuel" "0 < fuel" using assms(2) by simp_all
  have "\<exists>m1. solveTail_with (memoStore cap) fuel P m S = Some (Num (E_all P S), m1)
      \<and> memo_inv_all P m1"
    using store_ok_memoStore assms(1) f assms(3)
    by (intro solveTail_with_correct) (simp_all add: memo_holds_nomemo_iff)
  moreover have "\<exists>m2. solveTail_with memo_set fuel P m' S = Some (Num (E_all P S), m2)
      \<and> memo_inv_all P m2"
    using store_ok_memo_set assms(1) f assms(4)
    by (intro solveTail_with_correct) (simp_all add: memo_holds_nomemo_iff)
  ultimately show ?thesis
    using solveTail_nomemo_correct[OF assms(1,2)]
    by (simp add: solveTail_def solveTail_unbounded_def memo_holds_nomemo_iff)
qed

text \<open>
  The three-word list \<open>allow, llama, alloy\<close> with capacity 1, where every store evicts.
\<close>

theorem memo_transparent_witness:
  "\<exists>v. solveTail_nomemo 4 (buildTable patternFor words3) [0, 1, 2] = Some v \<and>
     (\<exists>m1. solveTail 1 4 (buildTable patternFor words3) [] [0, 1, 2] = Some (v, m1) \<and>
            memo_holds solveTail_nomemo (buildTable patternFor words3) m1) \<and>
     (\<exists>m2. solveTail_unbounded 4 (buildTable patternFor words3) [] [0, 1, 2] = Some (v, m2) \<and>
            memo_holds solveTail_nomemo (buildTable patternFor words3) m2)"
proof -
  have "memo_holds solveTail_nomemo (buildTable patternFor words3) []"
    by (simp add: memo_holds_def)
  then show ?thesis
    using memo_transparent[OF words3_wellformed, of 4 "[]" "[]" 1] by simp
qed

text \<open>
  C7 (as amended): called with an empty candidate set, the exact solvers return the
  value 0 (with \<open>bestGuess = -1\<close> in \<open>dp_solver.js\<close>) as a normal result and leave the memo
  as it is; the partition of an empty set is the empty map. Nothing fails.
\<close>

theorem empty_candidate_set_returns_zero:
  "solveState_main (Suc fuel) PAT memo [] = Some (Num 0, memo) \<and>
   solveState_dp (Suc fuel) patternMatrix dp []
     = Some (\<lparr>resValue = Num 0, resBestGuess = - 1\<rparr>, dp) \<and>
   solveTail cap (Suc fuel) PAT memo [] = Some (Num 0, memo) \<and>
   partitionState patternMatrix [] guessIdx = [] \<and>
   partitionByPattern [] guess = []"
  by (simp add: solveTail_def partitionState_def partitionByPattern_def)

theorem empty_candidate_set_returns_zero_witness:
  "solveState_main (Suc 0) (buildTable patternFor words2) [([0, 1], Num 2)] []
     = Some (Num 0, [([0, 1], Num 2)]) \<and>
   solveState_dp (Suc 0) (buildTable patternOf words2) [] []
     = Some (\<lparr>resValue = Num 0, resBestGuess = - 1\<rparr>, []) \<and>
   solveTail 1 (Suc 0) (buildTable patternFor words2) [] [] = Some (Num 0, []) \<and>
   partitionState (buildTable patternOf words2) [] 0 = [] \<and>
   partitionByPattern [] ''allow'' = []"
  using empty_candidate_set_returns_zero[of 0 "buildTable patternFor words2" "[([0, 1], Num 2)]"]
    empty_candidate_set_returns_zero[of 0 "buildTable patternFor words2" "[]"
      "buildTable patternOf words2" "[]" 1 0 "''allow''"]
  by simp

text \<open>
  The claim as stated, that an empty candidate set is surfaced as a failure, is false:
  each solver returns a value.
\<close>

theorem empty_candidate_set_is_not_a_failure:
  "solveState_main 1 (buildTable patternFor words2) [] [] = Some (Num 0, []) \<and>
   solveState_dp 1 (buildTable patternOf words2) [] []
     = Some (\<lparr>resValue = Num 0, resBestGuess = - 1\<rparr>, []) \<and>
   solveTail MAX_MEMO_ENTRIES 1 (buildTable patternFor words2) [] [] = Some (Num 0, [])"
  by (simp add: solveTail_def)

text \<open>
  C8: for a non-empty wellformed candidate set and enough fuel, the value \<open>v\<close> returned
  by \<open>solveState\<close> of \<open>main.js\<close> and by \<open>solveState\<close> of \<open>dp_solver.js\<close> (on a
  sorted set) is 1 exactly when the set has one element, is greater than 1 when it has
  more, and is at most the number of elements. The memos passed in hold values of the
  respective solver.
\<close>

theorem expected_steps_bounds:
  assumes "wellformed P S" "S \<noteq> []" "length S < fuel" "sorted S"
    and "memo_holds value_main P m" "memo_holds_dp value_dp P dp"
  shows "(\<exists>v m'. solveState_main fuel P m S = Some (Num v, m') \<and>
            ((v = 1) = (length S = 1)) \<and> (1 < length S \<longrightarrow> 1 < v) \<and> v \<le> of_nat (length S)) \<and>
         (\<exists>r v dp'. solveState_dp fuel P dp S = Some (r, dp') \<and> resValue r = Num v \<and>
            ((v = 1) = (length S = 1)) \<and> (1 < length S \<longrightarrow> 1 < v) \<and> v \<le> of_nat (length S))"
proof -
  have f: "length S \<le> fuel" "0 < fuel" using assms(3) by simp_all
  have len: "length S = 1 \<or> (2::nat) \<le> length S" 
  proof -
    have "0 < length S" using assms(2) by simp
    then show ?thesis by arith
  qed
  have a: "(E_all P S = 1) = (length S = 1)" "1 < length S \<longrightarrow> 1 < E_all P S"
    "E_all P S \<le> of_nat (length S)"
    using E_all_bounds[OF assms(1,2)] len by (auto simp: E_all_small)
  have s: "(E_skip P S = 1) = (length S = 1)" "1 < length S \<longrightarrow> 1 < E_skip P S"
    "E_skip P S \<le> of_nat (length S)"
    using E_skip_bounds[OF assms(1,2)] len by (auto simp: E_skip_small)
  have "\<exists>m'. solveState_main fuel P m S = Some (Num (E_all P S), m') \<and> memo_inv_all P m'"
    using assms(1) f assms(5) by (intro solveState_main_correct) (simp_all add: memo_holds_value_main_iff)
  then have main: "\<exists>v m'. solveState_main fuel P m S = Some (Num v, m') \<and>
            ((v = 1) = (length S = 1)) \<and> (1 < length S \<longrightarrow> 1 < v) \<and> v \<le> of_nat (length S)"
    using a by blast
  have "\<exists>r dp'. solveState_dp fuel P dp S = Some (r, dp') \<and> resValue r = Num (E_skip P S) \<and>
       memo_inv_dp P dp'"
    using assms(4,1) f assms(6) by (intro solveState_dp_correct) (simp_all add: memo_holds_dp_value_iff)
  then have "\<exists>r v dp'. solveState_dp fuel P dp S = Some (r, dp') \<and> resValue r = Num v \<and>
            ((v = 1) = (length S = 1)) \<and> (1 < length S \<longrightarrow> 1 < v) \<and> v \<le> of_nat (length S)"
    using s by blast
  with main show ?thesis by (rule conjI)
qed

text \<open>
  The three-word list \<open>allow, llama, alloy\<close> and empty memos.
\<close>

theorem expected_steps_bounds_witness:
  "(\<exists>v m'. solveState_main 4 (buildTable patternFor words3) [] [0, 1, 2] = Some (Num v, m') \<and>
            v \<noteq> 1 \<and> 1 < v \<and> v \<le> 3) \<and>
   (\<exists>r v dp'. solveState_dp 4 (buildTable patternFor words3) [] [0, 1, 2] = Some (r, dp') \<and>
            resValue r = Num v \<and> v \<noteq> 1 \<and> 1 < v \<and> v \<le> 3)"
proof -
  have "memo_holds value_main (buildTable patternFor words3) []"
    "memo_holds_dp value_dp (buildTable patternFor words3) []"
    by (simp_all add: memo_holds_def memo_holds_dp_def)
  then show ?thesis
    using expected_steps_bounds[OF words3_wellformed, of 4 "[]" "[]"] by simp
qed

end
